theory Spec2Isabelle
  imports Main
begin

section \<open>Interclub league: fixture scheduler and group standings\<close>

text \<open>
  The two algorithmic methods of \<open>InterclubService\<close> are embedded here:
  \<open>generateAndPersistMatchSchedule\<close> (double round-robin fixtures spread over four weeks)
  and \<open>getGroupStandings\<close> (points table of a group). The remote store is not part of
  the embedding: what a store call returns is an argument of the embedded method, and what
  the method sends to the store is part of its result.
\<close>

subsection \<open>Errors thrown by the runtime\<close>

datatype js_error = TypeError | SyntaxError

subsection \<open>Fixture scheduler: data\<close>

text \<open>An element of \<open>raw\<close>: \<open>{ home: string; away: string }\<close>.\<close>

record raw_fixture =
  home :: string
  away :: string

text \<open>A row of the insert payload \<open>fixturesToInsert\<close>.\<close>

record fixture =
  season_id :: string
  week_number :: nat
  home_team_id :: string
  away_team_id :: string
  match_date :: string
  status :: string
  group_number :: int

text \<open>An element of \<open>weekSchedule\<close>: \<open>{ week: number; matchdays: number[] }\<close>.\<close>

record week_entry =
  week :: nat
  matchdays :: "nat list"

text \<open>The loop variables of step 4: \<open>matchday\<close>, \<open>weekSchedule\<close>, \<open>fixturesToInsert\<close>.\<close>

record sched_state =
  matchday :: nat
  weekSchedule :: "week_entry list"
  fixturesToInsert :: "fixture list"

text \<open>The returned object \<open>{ success: boolean; error?: string }\<close>.\<close>

record sched_result =
  success :: bool
  error :: "string option"

text \<open>
  What one call of the scheduler does: the payload handed to the bulk insert, the week
  schedule handed to the season update (\<open>None\<close> when the update is never reached) and
  the object returned.
\<close>

record sched_run =
  inserted :: "fixture list"
  week_schedule :: "week_entry list option"
  returned :: sched_result

subsection \<open>Fixture scheduler: operations\<close>

text \<open>
  Step 1, the two nested \<open>for\<close> loops; \<open>raw.push\<close> appends. Both indices stay below
  \<open>teamIds.length\<close>, so every read of \<open>teamIds\<close> is in range.
\<close>

definition build_raw :: "string list \<Rightarrow> raw_fixture list" where
  "build_raw teamIds =
     fold (\<lambda>i raw.
        fold (\<lambda>j raw. raw @ [\<lparr>home = teamIds ! i, away = teamIds ! j\<rparr>,
                               \<lparr>home = teamIds ! j, away = teamIds ! i\<rparr>])
             [i + 1 ..< length teamIds] raw)
       [0 ..< length teamIds] []"

definition weeks :: nat where
  "weeks = 4"

text \<open>Step 2: \<open>perWeekBase + (w < extras ? 1 : 0)\<close> for \<open>w = 0 .. weeks - 1\<close>.\<close>

definition week_buckets :: "nat \<Rightarrow> nat list" where
  "week_buckets totalMD =
     (let perWeekBase = totalMD div weeks; extras = totalMD mod weeks
      in map (\<lambda>w. perWeekBase + (if w < extras then 1 else 0)) [0 ..< weeks])"

text \<open>Step 3: one entry per bucket, numbered from 1, with no matchday yet.\<close>

definition init_week_schedule :: "nat list \<Rightarrow> week_entry list" where
  "init_week_schedule weekBuckets =
     map (\<lambda>w. \<lparr>week = w + 1, matchdays = []\<rparr>) [0 ..< length weekBuckets]"

text \<open>
  The \<open>while\<close> loop that finds the week of a matchday, started at \<open>cum = 0, wk = 0\<close>.
  Past the end of \<open>weekBuckets\<close> the read gives \<open>undefined\<close>, the sum is \<open>NaN\<close> and
  the comparison is false: the loop stops there.
\<close>

function find_week :: "nat list \<Rightarrow> nat \<Rightarrow> nat \<Rightarrow> nat \<Rightarrow> nat" where
  "find_week weekBuckets md cum wk =
     (if wk < length weekBuckets \<and> cum + weekBuckets ! wk < md
      then find_week weekBuckets md (cum + weekBuckets ! wk) (wk + 1)
      else wk)"
  by pat_completeness auto
termination
  by (relation "measure (\<lambda>(weekBuckets, md, cum, wk). length weekBuckets - wk)") auto

declare find_week.simps [simp del]

text \<open>
  The body of the \<open>for ... of raw\<close> loop. \<open>weekSchedule[wk]\<close> past the end is
  \<open>undefined\<close>, and reading \<open>.matchdays\<close> of it throws a \<open>TypeError\<close>.
\<close>

definition assign_fixture ::
  "string \<Rightarrow> (nat \<Rightarrow> string) \<Rightarrow> int \<Rightarrow> nat list \<Rightarrow> sched_state \<Rightarrow> raw_fixture
     \<Rightarrow> js_error + sched_state" where
  "assign_fixture seasonId computeMatchDate groupNumber weekBuckets s r =
     (let wk = find_week weekBuckets (matchday s) 0 0 in
      if wk < length (weekSchedule s) then
        Inr \<lparr>matchday = matchday s + 1,
             weekSchedule = (weekSchedule s)
               [wk := (weekSchedule s ! wk)
                        \<lparr>matchdays := matchdays (weekSchedule s ! wk) @ [matchday s]\<rparr>],
             fixturesToInsert = fixturesToInsert s @
               [\<lparr>season_id = seasonId,
                 week_number = wk + 1,
                 home_team_id = home r,
                 away_team_id = away r,
                 match_date = computeMatchDate (matchday s),
                 status = ''scheduled'',
                 group_number = groupNumber\<rparr>]\<rparr>
      else Inl TypeError)"

fun assign_all ::
  "string \<Rightarrow> (nat \<Rightarrow> string) \<Rightarrow> int \<Rightarrow> nat list \<Rightarrow> sched_state \<Rightarrow> raw_fixture list
     \<Rightarrow> js_error + sched_state" where
  "assign_all seasonId computeMatchDate groupNumber weekBuckets s [] = Inr s"
| "assign_all seasonId computeMatchDate groupNumber weekBuckets s (r # rs) =
     (case assign_fixture seasonId computeMatchDate groupNumber weekBuckets s r of
        Inl e \<Rightarrow> Inl e
      | Inr s' \<Rightarrow> assign_all seasonId computeMatchDate groupNumber weekBuckets s' rs)"

text \<open>Steps 1 to 4: everything the method computes before it talks to the store.\<close>

definition build_schedule ::
  "string \<Rightarrow> string list \<Rightarrow> (nat \<Rightarrow> string) \<Rightarrow> int \<Rightarrow> js_error + sched_state" where
  "build_schedule seasonId teamIds computeMatchDate groupNumber =
     (let raw = build_raw teamIds;
          totalMD = length raw;
          weekBuckets = week_buckets totalMD
      in assign_all seasonId computeMatchDate groupNumber weekBuckets
           \<lparr>matchday = 1, weekSchedule = init_week_schedule weekBuckets, fixturesToInsert = []\<rparr>
           raw)"

text \<open>
  The whole method. \<open>insertError\<close> and \<open>updateError\<close> are what the two store calls
  answer: the message of the error reported, if any. An exception of steps 1 to 4 rejects
  the promise (\<open>Inl\<close>): the method has no \<open>try\<close>. The \<open>updated_at\<close> timestamp sent
  with the week schedule is left out.
\<close>

definition generateAndPersistMatchSchedule ::
  "string option \<Rightarrow> string option
     \<Rightarrow> string \<Rightarrow> string list \<Rightarrow> (nat \<Rightarrow> string) \<Rightarrow> int \<Rightarrow> js_error + sched_run" where
  "generateAndPersistMatchSchedule insertError updateError
       seasonId teamIds computeMatchDate groupNumber =
     (case build_schedule seasonId teamIds computeMatchDate groupNumber of
        Inl e \<Rightarrow> Inl e
      | Inr s \<Rightarrow>
          (case insertError of
             Some msg \<Rightarrow>
               Inr \<lparr>inserted = fixturesToInsert s, week_schedule = None,
                    returned = \<lparr>success = False, error = Some msg\<rparr>\<rparr>
           | None \<Rightarrow>
               (case updateError of
                  Some msg \<Rightarrow>
                    Inr \<lparr>inserted = fixturesToInsert s, week_schedule = Some (weekSchedule s),
                         returned = \<lparr>success = False, error = Some msg\<rparr>\<rparr>
                | None \<Rightarrow>
                    Inr \<lparr>inserted = fixturesToInsert s, week_schedule = Some (weekSchedule s),
                         returned = \<lparr>success = True, error = None\<rparr>\<rparr>)))"

text \<open>A date function for the examples: matchday \<open>n\<close> is played on day \<open>n\<close>.\<close>

definition day_of_matchday :: "nat \<Rightarrow> string" where
  "day_of_matchday n = replicate n (CHR ''d'')"

subsection \<open>Group standings: data\<close>

text \<open>
  An element of the parsed \<open>results\<close> array. Reading \<open>.winner\<close> of \<open>null\<close> throws;
  of any other element it gives the winner when that is a string, and otherwise a value
  that is not \<open>'home'\<close> (\<open>None\<close>: the property is missing or not a string).
\<close>

datatype result_entry = NullEntry | Entry "string option"

text \<open>What \<open>JSON.parse\<close> returns: an array, or a value that has no \<open>forEach\<close>.\<close>

datatype json_value = JArray "result_entry list" | JOther

text \<open>
  The \<open>results\<close> column of an encounter row: empty (\<open>null\<close> or the empty string,
  replaced by \<open>'[]'\<close>), a text that \<open>JSON.parse\<close> rejects, or a text with
  its parsed value.
\<close>

datatype results_column = Empty | Invalid | Json json_value

text \<open>The columns of a completed \<open>interclub_matches\<close> row that the standings read.\<close>

record encounter =
  home_team_id :: string
  away_team_id :: string
  results :: results_column

text \<open>The columns of an \<open>interclub_registrations\<close> row that the standings read.\<close>

record registration =
  user_id :: string
  team_name :: string

record GroupStanding =
  team_id :: string
  team_name :: string
  is_cpu :: bool
  position :: int
  matches_played :: int
  encounters_won :: int
  encounters_lost :: int
  individual_matches_won :: int
  individual_matches_lost :: int
  points :: int
  form :: "string list"

text \<open>
  The object \<open>const standings: Record<string, GroupStanding> = {}\<close>. It is a plain
  object: besides its own properties (\<open>own\<close>, in the order in which their keys were
  created) it has a prototype. That is \<open>Object.prototype\<close> (\<open>proto = None\<close>)
  until an assignment to the key \<open>__proto__\<close> replaces it by the assigned entry
  (\<open>proto = Some p\<close>); such an assignment creates no own property.
\<close>

record standings_object =
  own :: "(string \<times> GroupStanding) list"
  proto :: "GroupStanding option"

text \<open>
  The property names that every plain object inherits from \<open>Object.prototype\<close>. All of
  them hold a function, except the accessor \<open>__proto__\<close>, which gives the prototype of
  the object it is read from.
\<close>

definition Object_prototype_members :: "string list" where
  "Object_prototype_members =
     [''constructor'', ''__defineGetter__'', ''__defineSetter__'', ''hasOwnProperty'',
      ''__lookupGetter__'', ''__lookupSetter__'', ''isPrototypeOf'', ''propertyIsEnumerable'',
      ''toString'', ''valueOf'', ''__proto__'', ''toLocaleString'']"

text \<open>
  What \<open>standings[k]\<close> can be in the guard \<open>if (standings[k])\<close> and in the block it
  guards: \<open>undefined\<close> or another falsy value; an entry that is an own property; the
  entry that is the prototype; another object (a function of \<open>Object.prototype\<close>,
  \<open>Object.prototype\<close> itself, the \<open>form\<close> array of the prototype entry); or a truthy
  string, number or boolean (a field of the prototype entry).
\<close>

datatype slot = Absent | OwnEntry GroupStanding | ProtoEntry GroupStanding
  | ForeignObject | ForeignPrimitive

text \<open>
  A field of the prototype entry \<open>p\<close>, read as \<open>standings[k]\<close> for a key \<open>k\<close> that
  is the name of a field: the empty string, zero and \<open>false\<close> are falsy.
\<close>

definition inherited_field :: "GroupStanding \<Rightarrow> string \<Rightarrow> slot" where
  "inherited_field p k =
     (if k = ''team_id'' then (if team_id p = [] then Absent else ForeignPrimitive)
      else if k = ''team_name'' then (if team_name p = [] then Absent else ForeignPrimitive)
      else if k = ''is_cpu'' then (if is_cpu p then ForeignPrimitive else Absent)
      else if k = ''position'' then (if position p = 0 then Absent else ForeignPrimitive)
      else if k = ''matches_played'' then
        (if matches_played p = 0 then Absent else ForeignPrimitive)
      else if k = ''encounters_won'' then
        (if encounters_won p = 0 then Absent else ForeignPrimitive)
      else if k = ''encounters_lost'' then
        (if encounters_lost p = 0 then Absent else ForeignPrimitive)
      else if k = ''individual_matches_won'' then
        (if individual_matches_won p = 0 then Absent else ForeignPrimitive)
      else if k = ''individual_matches_lost'' then
        (if individual_matches_lost p = 0 then Absent else ForeignPrimitive)
      else if k = ''points'' then (if points p = 0 then Absent else ForeignPrimitive)
      else if k = ''form'' then ForeignObject
      else Absent)"

definition standing_fields :: "string list" where
  "standing_fields =
     [''team_id'', ''team_name'', ''is_cpu'', ''position'', ''matches_played'',
      ''encounters_won'', ''encounters_lost'', ''individual_matches_won'',
      ''individual_matches_lost'', ''points'', ''form'']"

text \<open>
  The read \<open>standings[k]\<close>: an own property first, then the prototype chain. With the
  prototype entry \<open>p\<close> in place the chain is \<open>p\<close>, then \<open>Object.prototype\<close>.
\<close>

definition js_get :: "standings_object \<Rightarrow> string \<Rightarrow> slot" where
  "js_get standings k =
     (case map_of (own standings) k of
        Some v \<Rightarrow> OwnEntry v
      | None \<Rightarrow>
          (case proto standings of
             None \<Rightarrow> if k \<in> set Object_prototype_members then ForeignObject else Absent
           | Some p \<Rightarrow>
               if k = ''__proto__'' then ProtoEntry p
               else if k \<in> set standing_fields then inherited_field p k
               else if k \<in> set Object_prototype_members then ForeignObject
               else Absent))"

text \<open>Writing an own property: in place when the key exists, at the end otherwise.\<close>

fun obj_set :: "'k \<Rightarrow> 'v \<Rightarrow> ('k \<times> 'v) list \<Rightarrow> ('k \<times> 'v) list" where
  "obj_set k v [] = [(k, v)]"
| "obj_set k v ((k', v') # kvs) =
     (if k' = k then (k, v) # kvs else (k', v') # obj_set k v kvs)"

text \<open>
  The assignment \<open>standings[k] = v\<close>. Every inherited member but \<open>__proto__\<close> is a
  writable data property, so the assignment creates or overwrites an own property; for
  \<open>__proto__\<close> (when it is not an own property) the inherited setter makes \<open>v\<close> the
  prototype.
\<close>

definition js_set :: "string \<Rightarrow> GroupStanding \<Rightarrow> standings_object \<Rightarrow> standings_object" where
  "js_set k v standings =
     (if k = ''__proto__'' \<and> map_of (own standings) k = None
      then standings\<lparr>proto := Some v\<rparr>
      else standings\<lparr>own := obj_set k v (own standings)\<rparr>)"

text \<open>
  Array indices: the keys that are the decimal numeral, without a leading zero, of an
  integer from 0 to \<open>2^32 - 2\<close>.
\<close>

definition digit :: "char \<Rightarrow> int option" where
  "digit c =
     map_of [(CHR ''0'', 0), (CHR ''1'', 1), (CHR ''2'', 2), (CHR ''3'', 3), (CHR ''4'', 4),
             (CHR ''5'', 5), (CHR ''6'', 6), (CHR ''7'', 7), (CHR ''8'', 8), (CHR ''9'', 9)] c"

fun decimal :: "string \<Rightarrow> int \<Rightarrow> int option" where
  "decimal [] n = Some n"
| "decimal (c # cs) n =
     (case digit c of
        None \<Rightarrow> None
      | Some d \<Rightarrow> decimal cs (10 * n + d))"

definition array_index :: "string \<Rightarrow> int option" where
  "array_index k =
     (case k of
        [] \<Rightarrow> None
      | c # cs \<Rightarrow>
          if c = CHR ''0'' \<and> cs \<noteq> [] then None
          else (case decimal k 0 of
                  None \<Rightarrow> None
                | Some n \<Rightarrow> if n < 4294967295 then Some n else None))"

definition index_of :: "string \<Rightarrow> int" where
  "index_of k = (case array_index k of None \<Rightarrow> 0 | Some n \<Rightarrow> n)"

text \<open>
  \<open>Object.values(standings)\<close>: the values of the own properties, those whose key is an
  array index first, in ascending order of the index, then the others in the order in
  which their keys were created. The prototype is not among them.
\<close>

definition Object_values :: "standings_object \<Rightarrow> GroupStanding list" where
  "Object_values standings =
     map snd
       (sort_key (\<lambda>kv. index_of (fst kv))
          (filter (\<lambda>kv. array_index (fst kv) \<noteq> None) (own standings)) @
        filter (\<lambda>kv. array_index (fst kv) = None) (own standings))"

subsection \<open>Group standings: operations\<close>

text \<open>\<open>registrations?.forEach\<close>: one fresh entry per registration, none when the data is null.\<close>

definition init_standings :: "registration list option \<Rightarrow> standings_object" where
  "init_standings registrations =
     (case registrations of
        None \<Rightarrow> \<lparr>own = [], proto = None\<rparr>
      | Some regs \<Rightarrow>
          fold (\<lambda>reg standings.
                  js_set (user_id reg)
                    \<lparr>team_id = user_id reg,
                     team_name = registration.team_name reg,
                     is_cpu = False,
                     position = 0,
                     matches_played = 0,
                     encounters_won = 0,
                     encounters_lost = 0,
                     individual_matches_won = 0,
                     individual_matches_lost = 0,
                     points = 0,
                     form = []\<rparr>
                    standings)
               regs \<lparr>own = [], proto = None\<rparr>)"

text \<open>\<open>JSON.parse(encounter.results || '[]')\<close>.\<close>

definition JSON_parse_results :: "results_column \<Rightarrow> js_error + json_value" where
  "JSON_parse_results col =
     (case col of
        Empty \<Rightarrow> Inr (JArray [])
      | Invalid \<Rightarrow> Inl SyntaxError
      | Json v \<Rightarrow> Inr v)"

text \<open>
  \<open>results.forEach\<close> with the counters \<open>homeWins\<close> and \<open>awayWins\<close>: every element
  whose winner is not \<open>'home'\<close> counts for the away side.
\<close>

fun count_wins :: "result_entry list \<Rightarrow> int \<times> int \<Rightarrow> js_error + int \<times> int" where
  "count_wins [] (homeWins, awayWins) = Inr (homeWins, awayWins)"
| "count_wins (NullEntry # rs) (homeWins, awayWins) = Inl TypeError"
| "count_wins (Entry winner # rs) (homeWins, awayWins) =
     (if winner = Some ''home'' then count_wins rs (homeWins + 1, awayWins)
      else count_wins rs (homeWins, awayWins + 1))"

definition forEach_results :: "json_value \<Rightarrow> js_error + int \<times> int" where
  "forEach_results v =
     (case v of
        JArray rs \<Rightarrow> count_wins rs (0, 0)
      | JOther \<Rightarrow> Inl TypeError)"

text \<open>The tally of an encounter row: parse, then count.\<close>

definition tally :: "results_column \<Rightarrow> js_error + int \<times> int" where
  "tally col =
     (case JSON_parse_results col of
        Inl e \<Rightarrow> Inl e
      | Inr v \<Rightarrow> forEach_results v)"

text \<open>
  A guarded block \<open>if (standings[k]) { ... standings[k] ... }\<close> that changes the entry
  by \<open>f\<close>. Nothing happens when the guard fails. An entry, own or prototype, is changed
  in place. A truthy string, number or boolean throws at the first write to one of its
  properties (class code is strict). What happens with another object is \<open>on_object\<close>.
\<close>

definition guarded ::
  "string \<Rightarrow> (GroupStanding \<Rightarrow> GroupStanding)
     \<Rightarrow> (standings_object \<Rightarrow> js_error + standings_object)
     \<Rightarrow> standings_object \<Rightarrow> js_error + standings_object" where
  "guarded k f on_object standings =
     (case js_get standings k of
        Absent \<Rightarrow> Inr standings
      | OwnEntry v \<Rightarrow> Inr (standings\<lparr>own := obj_set k (f v) (own standings)\<rparr>)
      | ProtoEntry p \<Rightarrow> Inr (standings\<lparr>proto := Some (f p)\<rparr>)
      | ForeignObject \<Rightarrow> on_object standings
      | ForeignPrimitive \<Rightarrow> Inl TypeError)"

text \<open>\<open>matches_played++\<close>\<close>

definition played :: "GroupStanding \<Rightarrow> GroupStanding" where
  "played s = s\<lparr>matches_played := matches_played s + 1\<rparr>"

text \<open>
  \<open>if (standings[k]) { standings[k].matches_played++; }\<close>. On another object the
  increment stores a \<open>NaN\<close> in that object and the standings are as before.
\<close>

definition count_played :: "string \<Rightarrow> standings_object \<Rightarrow> js_error + standings_object" where
  "count_played k standings = guarded k played Inr standings"

text \<open>
  The body of an \<open>Update statistics\<close> block. The two blocks are the same code with the
  sides exchanged: \<open>won\<close> and \<open>lost\<close> are the individual wins of this side and of the
  other one.
\<close>

definition record_result :: "int \<Rightarrow> int \<Rightarrow> GroupStanding \<Rightarrow> GroupStanding" where
  "record_result won lost s =
     (let s1 = s\<lparr>individual_matches_won := individual_matches_won s + won,
                 individual_matches_lost := individual_matches_lost s + lost\<rparr>
      in if won > lost
         then s1\<lparr>encounters_won := encounters_won s1 + 1,
                 points := points s1 + 3,
                 form := form s1 @ [''W'']\<rparr>
         else s1\<lparr>encounters_lost := encounters_lost s1 + 1,
                 form := form s1 @ [''L'']\<rparr>)"

text \<open>
  An \<open>Update statistics\<close> block. Another object has no \<open>form\<close>, and both branches end
  in \<open>.form.push\<close>, which then throws.
\<close>

definition update_statistics ::
  "string \<Rightarrow> int \<Rightarrow> int \<Rightarrow> standings_object \<Rightarrow> js_error + standings_object" where
  "update_statistics k won lost standings =
     guarded k (record_result won lost) (\<lambda>s. Inl TypeError) standings"

text \<open>The body of \<open>encounters?.forEach\<close>; an exception leaves it at once.\<close>

definition process_encounter :: "standings_object \<Rightarrow> encounter \<Rightarrow> js_error + standings_object" where
  "process_encounter standings encounter =
     (let homeTeamId = home_team_id encounter;
          awayTeamId = away_team_id encounter
      in case JSON_parse_results (results encounter) of
           Inl e \<Rightarrow> Inl e
         | Inr parsed \<Rightarrow>
      (case count_played homeTeamId standings of
           Inl e \<Rightarrow> Inl e
         | Inr standings1 \<Rightarrow>
      (case count_played awayTeamId standings1 of
           Inl e \<Rightarrow> Inl e
         | Inr standings2 \<Rightarrow>
      (case forEach_results parsed of
           Inl e \<Rightarrow> Inl e
         | Inr (homeWins, awayWins) \<Rightarrow>
      (case update_statistics homeTeamId homeWins awayWins standings2 of
           Inl e \<Rightarrow> Inl e
         | Inr standings3 \<Rightarrow>
             update_statistics awayTeamId awayWins homeWins standings3)))))"

fun process_encounters :: "standings_object \<Rightarrow> encounter list \<Rightarrow> js_error + standings_object" where
  "process_encounters standings [] = Inr standings"
| "process_encounters standings (e # es) =
     (case process_encounter standings e of
        Inl err \<Rightarrow> Inl err
      | Inr standings' \<Rightarrow> process_encounters standings' es)"

text \<open>The comparator handed to \<open>sort\<close>: negative when \<open>a\<close> goes before \<open>b\<close>.\<close>

definition compare_standings :: "GroupStanding \<Rightarrow> GroupStanding \<Rightarrow> int" where
  "compare_standings a b =
     (if points b \<noteq> points a then points b - points a
      else (let aDiff = individual_matches_won a - individual_matches_lost a;
                bDiff = individual_matches_won b - individual_matches_lost b
            in bDiff - aDiff))"

text \<open>
  \<open>Array.prototype.sort\<close> is a stable sort by the comparator. It is embedded as a stable
  insertion sort: an element goes before the first one of the sorted rest that it does not
  come after.
\<close>

fun insert_sorted :: "('a \<Rightarrow> 'a \<Rightarrow> int) \<Rightarrow> 'a \<Rightarrow> 'a list \<Rightarrow> 'a list" where
  "insert_sorted cmp x [] = [x]"
| "insert_sorted cmp x (y # ys) =
     (if cmp x y \<le> 0 then x # y # ys else y # insert_sorted cmp x ys)"

definition js_sort :: "('a \<Rightarrow> 'a \<Rightarrow> int) \<Rightarrow> 'a list \<Rightarrow> 'a list" where
  "js_sort cmp xs = foldr (insert_sorted cmp) xs []"

text \<open>\<open>form.slice(-5)\<close>: the last five elements, or all of them when there are fewer.\<close>

definition slice_last5 :: "'a list \<Rightarrow> 'a list" where
  "slice_last5 xs = drop (length xs - 5) xs"

text \<open>The final \<open>forEach((standing, index) => ...)\<close>.\<close>

definition assign_positions :: "GroupStanding list \<Rightarrow> GroupStanding list" where
  "assign_positions sortedStandings =
     map (\<lambda>(index, standing).
            standing\<lparr>position := int index + 1, form := slice_last5 (form standing)\<rparr>)
         (enumerate 0 sortedStandings)"

text \<open>
  The standings object after the two \<open>forEach\<close> loops, or the exception that stopped
  them.
\<close>

definition tabulate ::
  "encounter list option \<Rightarrow> registration list option \<Rightarrow> js_error + standings_object" where
  "tabulate encounters registrations =
     process_encounters (init_standings registrations)
       (case encounters of None \<Rightarrow> [] | Some es \<Rightarrow> es)"

text \<open>
  The whole method. \<open>encounters\<close>, \<open>encError\<close> (the first query's \<open>error\<close>) and
  \<open>registrations\<close>, \<open>regError\<close> are what the two queries answer. Each early
  \<open>return []\<close> and the \<open>catch\<close> are a branch.
\<close>

definition getGroupStandings ::
  "encounter list option \<Rightarrow> string option
     \<Rightarrow> registration list option \<Rightarrow> string option \<Rightarrow> GroupStanding list" where
  "getGroupStandings encounters encError registrations regError =
     (if encError \<noteq> None then []
      else if regError \<noteq> None then []
      else (case tabulate encounters registrations of
              Inl e \<Rightarrow> []
            | Inr standings \<Rightarrow>
                assign_positions (js_sort compare_standings (Object_values standings))))"

subsection \<open>Auxiliary definitions for the proofs\<close>

text \<open>
  The fixtures of step 1 by recursion on the team list: the first team against each later
  one, both legs, then the fixtures among the later teams. \<open>build_raw\<close> is shown to
  compute exactly this list.
\<close>

fun round_robin :: "string list \<Rightarrow> raw_fixture list" where
  "round_robin [] = []"
| "round_robin (x # xs) =
     concat (map (\<lambda>y. [\<lparr>home = x, away = y\<rparr>, \<lparr>home = y, away = x\<rparr>]) xs) @ round_robin xs"

text \<open>
  The results of one team, as the specification describes the form sequence: going
  through the encounters in the order supplied, a \<open>W\<close> when the team's side has strictly
  more individual wins than the other side and an \<open>L\<close> otherwise, for each side of the
  encounter that the team plays.
\<close>

definition spec_encounter_results :: "string \<Rightarrow> encounter \<Rightarrow> string list" where
  "spec_encounter_results t e =
     (case tally (results e) of
        Inl err \<Rightarrow> []
      | Inr (homeWins, awayWins) \<Rightarrow>
          (if home_team_id e = t then [if homeWins > awayWins then ''W'' else ''L''] else []) @
          (if away_team_id e = t then [if awayWins > homeWins then ''W'' else ''L''] else []))"

definition spec_team_results :: "string \<Rightarrow> encounter list \<Rightarrow> string list" where
  "spec_team_results t es = concat (map (spec_encounter_results t) es)"

text \<open>
  What one encounter with the tally \<open>(homeWins, awayWins)\<close> does to the entry that
  \<open>standings[k]\<close> denotes: the four guarded updates of the loop body, in their order,
  each applied when \<open>k\<close> is the side it is guarded by.
\<close>

definition entry_after :: "encounter \<Rightarrow> int \<Rightarrow> int \<Rightarrow> string \<Rightarrow> GroupStanding \<Rightarrow> GroupStanding" where
  "entry_after e homeWins awayWins k v =
     (let v1 = (if k = home_team_id e then played v else v);
          v2 = (if k = away_team_id e then played v1 else v1);
          v3 = (if k = home_team_id e then record_result homeWins awayWins v2 else v2)
      in if k = away_team_id e then record_result awayWins homeWins v3 else v3)"

text \<open>
  The ranking order: more points first and, at equal points, the larger difference of
  individual matches won and lost first.
\<close>

definition ranks_before :: "GroupStanding \<Rightarrow> GroupStanding \<Rightarrow> bool" where
  "ranks_before a b \<longleftrightarrow>
     points b < points a \<or>
     (points b = points a \<and>
      individual_matches_won b - individual_matches_lost b
        \<le> individual_matches_won a - individual_matches_lost a)"

text \<open>
  A team identifier under which the standings object finds nothing that it has not been
  given: neither the name of a member of \<open>Object.prototype\<close> nor the name of a field of
  an entry.
\<close>

definition plain_id :: "string \<Rightarrow> bool" where
  "plain_id k \<longleftrightarrow> k \<notin> set Object_prototype_members \<and> k \<notin> set standing_fields"

text \<open>
  A side for which the guarded blocks find an entry or nothing: the key of an own entry,
  \<open>__proto__\<close> when an entry is the prototype, or a plain identifier.
\<close>

definition side_ok :: "standings_object \<Rightarrow> string \<Rightarrow> bool" where
  "side_ok standings k \<longleftrightarrow>
     k \<in> set (map fst (own standings)) \<or>
     (k = ''__proto__'' \<and> proto standings \<noteq> None) \<or>
     plain_id k"

text \<open>
  The own entries in the order in which \<open>Object.values\<close> lists them.
\<close>

definition listed :: "standings_object \<Rightarrow> (string \<times> GroupStanding) list" where
  "listed standings =
     sort_key (\<lambda>kv. index_of (fst kv))
       (filter (\<lambda>kv. array_index (fst kv) \<noteq> None) (own standings)) @
     filter (\<lambda>kv. array_index (fst kv) = None) (own standings)"

subsection \<open>Example data\<close>

text \<open>
  Five results of which the home side wins three, and five of which the away side wins
  four; a roster of two and one of four teams; encounters that the team \<open>H\<close> hosts
  against the team \<open>A\<close>.
\<close>

definition home_3_2 :: results_column where
  "home_3_2 = Json (JArray [Entry (Some ''home''), Entry (Some ''away''), Entry (Some ''home''),
                            Entry (Some ''away''), Entry (Some ''home'')])"

definition away_4_1 :: results_column where
  "away_4_1 = Json (JArray [Entry (Some ''away''), Entry (Some ''away''), Entry (Some ''home''),
                            Entry (Some ''away''), Entry (Some ''away'')])"

definition two_teams :: "registration list" where
  "two_teams = [\<lparr>user_id = ''A'', team_name = ''Ants''\<rparr>, \<lparr>user_id = ''H'', team_name = ''Hawks''\<rparr>]"

definition hawks_host :: "results_column \<Rightarrow> encounter" where
  "hawks_host r = \<lparr>home_team_id = ''H'', away_team_id = ''A'', results = r\<rparr>"

definition six_encounters :: "encounter list" where
  "six_encounters = [hawks_host home_3_2, hawks_host away_4_1, hawks_host home_3_2,
                     hawks_host home_3_2, hawks_host away_4_1, hawks_host home_3_2]"

definition four_teams :: "registration list" where
  "four_teams = [\<lparr>user_id = ''A'', team_name = ''Ants''\<rparr>, \<lparr>user_id = ''Z'', team_name = ''Zebras''\<rparr>,
                 \<lparr>user_id = ''Y'', team_name = ''Yaks''\<rparr>, \<lparr>user_id = ''H'', team_name = ''Hawks''\<rparr>]"

section \<open>The fixture scheduler\<close>

lemma fold_append_concat:
  "fold (\<lambda>x acc. acc @ h x) xs acc = acc @ concat (map h xs)"
  by (induction xs arbitrary: acc) auto

lemma build_raw_concat:
  "build_raw teamIds =
     concat (map (\<lambda>i. concat (map (\<lambda>j. [\<lparr>home = teamIds ! i, away = teamIds ! j\<rparr>,
                                          \<lparr>home = teamIds ! j, away = teamIds ! i\<rparr>])
                                 [i + 1 ..< length teamIds]))
                 [0 ..< length teamIds])"
proof -
  have inner: "\<And>i raw. fold (\<lambda>j raw. raw @ [\<lparr>home = teamIds ! i, away = teamIds ! j\<rparr>,
                               \<lparr>home = teamIds ! j, away = teamIds ! i\<rparr>])
             [i + 1 ..< length teamIds] raw
         = raw @ concat (map (\<lambda>j. [\<lparr>home = teamIds ! i, away = teamIds ! j\<rparr>,
                                          \<lparr>home = teamIds ! j, away = teamIds ! i\<rparr>])
                                 [i + 1 ..< length teamIds])"
    by (rule fold_append_concat)
  show ?thesis
    unfolding build_raw_def inner
    by (simp add: fold_append_concat)
qed

lemma concat_rows_Cons:
  "concat (map (\<lambda>i. concat (map (\<lambda>j. [\<lparr>home = (x # xs) ! i, away = (x # xs) ! j\<rparr>,
                                          \<lparr>home = (x # xs) ! j, away = (x # xs) ! i\<rparr>])
                                 [i + 1 ..< length (x # xs)]))
                 [0 ..< length (x # xs)])
   = concat (map (\<lambda>y. [\<lparr>home = x, away = y\<rparr>, \<lparr>home = y, away = x\<rparr>]) xs)
     @ concat (map (\<lambda>i. concat (map (\<lambda>j. [\<lparr>home = xs ! i, away = xs ! j\<rparr>,
                                          \<lparr>home = xs ! j, away = xs ! i\<rparr>])
                                 [i + 1 ..< length xs]))
                 [0 ..< length xs])"
proof -
  have shift: "\<And>a b. [Suc a ..< Suc b] = map Suc [a ..< b]"
    by (simp add: map_Suc_upt)
  have row0: "map (\<lambda>j. [\<lparr>home = x, away = (x # xs) ! j\<rparr>, \<lparr>home = (x # xs) ! j, away = x\<rparr>])
                [Suc 0 ..< Suc (length xs)]
              = map (\<lambda>y. [\<lparr>home = x, away = y\<rparr>, \<lparr>home = y, away = x\<rparr>]) xs"
    by (simp only: shift, simp add: comp_def, subst (3) map_nth [symmetric], simp add: comp_def)
  have "[0 ..< length (x # xs)] = 0 # map Suc [0 ..< length xs]"
    by (simp add: upt_conv_Cons shift del: upt_Suc)
  then show ?thesis
    using row0 by (simp add: comp_def shift del: upt_Suc)
qed

lemma build_raw_round_robin: "build_raw teamIds = round_robin teamIds"
  unfolding build_raw_concat
proof (induction teamIds)
  case Nil
  then show ?case by simp
next
  case (Cons x xs)
  show ?case
    unfolding concat_rows_Cons using Cons by simp
qed

lemma length_round_robin: "length (round_robin xs) = length xs * (length xs - 1)"
proof (induction xs)
  case Nil
  then show ?case by simp
next
  case (Cons x xs)
  have "length (concat (map (\<lambda>y. [\<lparr>home = x, away = y\<rparr>, \<lparr>home = y, away = x\<rparr>]) xs)) = 2 * length xs"
    by (induction xs) auto
  with Cons show ?case
    by (cases xs) (auto simp: algebra_simps)
qed

lemma count_first_leg:
  "length (filter (\<lambda>r. home r = a \<and> away r = b)
      (concat (map (\<lambda>y. [\<lparr>home = x, away = y\<rparr>, \<lparr>home = y, away = x\<rparr>]) xs)))
   = (if a = x then count_list xs b else 0) + (if b = x then count_list xs a else 0)"
  by (induction xs) auto

lemma count_round_robin:
  "distinct xs \<Longrightarrow>
   length (filter (\<lambda>r. home r = a \<and> away r = b) (round_robin xs))
   = (if a \<in> set xs \<and> b \<in> set xs \<and> a \<noteq> b then 1 else 0)"
proof (induction xs)
  case Nil
  then show ?case by simp
next
  case (Cons x xs)
  then have IH: "length (filter (\<lambda>r. home r = a \<and> away r = b) (round_robin xs))
     = (if a \<in> set xs \<and> b \<in> set xs \<and> a \<noteq> b then 1 else 0)"
    and nx: "x \<notin> set xs" and d: "distinct xs" by auto
  have c: "\<And>y. count_list xs y = (if y \<in> set xs then 1 else 0)"
    using d by (induction xs) auto
  show ?case
    using nx by (auto simp: count_first_leg IH c)
qed

lemma find_week_spec:
  "cum = sum_list (take wk wb) \<Longrightarrow> cum < md \<Longrightarrow> md \<le> sum_list wb \<Longrightarrow> wk \<le> length wb \<Longrightarrow>
   find_week wb md cum wk < length wb \<and>
   sum_list (take (find_week wb md cum wk) wb) < md \<and>
   md \<le> sum_list (take (Suc (find_week wb md cum wk)) wb)"
proof (induction wb md cum wk rule: find_week.induct)
  case (1 wb md cum wk)
  show ?case
  proof (cases "wk < length wb \<and> cum + wb ! wk < md")
    case True
    then have step: "cum + wb ! wk = sum_list (take (wk + 1) wb)"
      using "1.prems"(1) by (simp add: take_Suc_conv_app_nth)
    have "find_week wb md cum wk = find_week wb md (cum + wb ! wk) (wk + 1)"
      using True by (subst find_week.simps) simp
    moreover have "find_week wb md (cum + wb ! wk) (wk + 1) < length wb \<and>
       sum_list (take (find_week wb md (cum + wb ! wk) (wk + 1)) wb) < md \<and>
       md \<le> sum_list (take (Suc (find_week wb md (cum + wb ! wk) (wk + 1))) wb)"
      using "1.IH" [OF True step] True "1.prems" by simp
    ultimately show ?thesis by simp
  next
    case False
    then have r: "find_week wb md cum wk = wk"
      by (subst find_week.simps) auto
    have lt: "wk < length wb"
    proof (rule ccontr)
      assume "\<not> wk < length wb"
      then have "take wk wb = wb" using "1.prems"(4) by simp
      then show False using "1.prems" by simp
    qed
    then have "md \<le> cum + wb ! wk" using False by simp
    then have "md \<le> sum_list (take (Suc wk) wb)"
      using lt "1.prems"(1) by (simp add: take_Suc_conv_app_nth)
    then show ?thesis using r lt "1.prems" by simp
  qed
qed

lemma sum_take_mono: "i \<le> j \<Longrightarrow> sum_list (take i (wb :: nat list)) \<le> sum_list (take j wb)"
proof -
  assume "i \<le> j"
  then have "take j wb = take i wb @ take (j - i) (drop i wb)"
    by (metis le_add_diff_inverse take_add)
  then show ?thesis by simp
qed

lemma week_unique:
  assumes "sum_list (take r wb) < md" "md \<le> sum_list (take (Suc r) wb)"
      and "sum_list (take w wb) < md" "md \<le> sum_list (take (Suc w) (wb :: nat list))"
  shows "r = w"
proof (rule ccontr)
  assume "r \<noteq> w"
  then consider "Suc r \<le> w" | "Suc w \<le> r" by linarith
  then show False
  proof cases
    case 1
    from sum_take_mono [OF 1, of wb] assms show False by simp
  next
    case 2
    from sum_take_mono [OF 2, of wb] assms show False by simp
  qed
qed

lemma find_week_iff:
  assumes "0 < md" "md \<le> sum_list wb" "w < length wb"
  shows "find_week wb md 0 0 = w \<longleftrightarrow> sum_list (take w wb) < md \<and> md \<le> sum_list (take (Suc w) wb)"
proof -
  have s: "find_week wb md 0 0 < length wb \<and>
   sum_list (take (find_week wb md 0 0) wb) < md \<and>
   md \<le> sum_list (take (Suc (find_week wb md 0 0)) wb)"
    using find_week_spec [of 0 0 wb md] assms by simp
  show ?thesis
  proof
    assume "find_week wb md 0 0 = w"
    then show "sum_list (take w wb) < md \<and> md \<le> sum_list (take (Suc w) wb)" using s by simp
  next
    assume "sum_list (take w wb) < md \<and> md \<le> sum_list (take (Suc w) wb)"
    then show "find_week wb md 0 0 = w"
      using s week_unique by blast
  qed
qed

lemma find_week_in_range:
  "0 < md \<Longrightarrow> md \<le> sum_list wb \<Longrightarrow> find_week wb md 0 0 < length wb"
  using find_week_spec [of 0 0 wb md] by simp

text \<open>The loop, by induction on the fixtures still to place.\<close>

lemma assign_all_inv:
  "length (weekSchedule s) = length wb \<Longrightarrow> 0 < matchday s \<Longrightarrow>
   matchday s + length rs \<le> Suc (sum_list wb) \<Longrightarrow>
   \<exists>s'. assign_all sid cmd g wb s rs = Inr s' \<and>
        matchday s' = matchday s + length rs \<and>
        length (weekSchedule s') = length wb \<and>
        (\<forall>w < length wb.
           week (weekSchedule s' ! w) = week (weekSchedule s ! w) \<and>
           matchdays (weekSchedule s' ! w) =
             matchdays (weekSchedule s ! w) @
             filter (\<lambda>m. find_week wb m 0 0 = w) [matchday s ..< matchday s + length rs]) \<and>
        map (\<lambda>f. \<lparr>home = fixture.home_team_id f, away = fixture.away_team_id f\<rparr>) (fixturesToInsert s') =
          map (\<lambda>f. \<lparr>home = fixture.home_team_id f, away = fixture.away_team_id f\<rparr>) (fixturesToInsert s) @ rs"
proof (induction rs arbitrary: s)
  case Nil
  then show ?case by simp
next
  case (Cons r rs)
  let ?wk = "find_week wb (matchday s) 0 0"
  have wk: "?wk < length wb"
    using Cons.prems by (intro find_week_in_range) auto
  obtain s1 where s1: "assign_fixture sid cmd g wb s r = Inr s1"
    and md1: "matchday s1 = matchday s + 1"
    and ws1: "weekSchedule s1 = (weekSchedule s)
               [?wk := (weekSchedule s ! ?wk)
                        \<lparr>matchdays := matchdays (weekSchedule s ! ?wk) @ [matchday s]\<rparr>]"
    and fx1: "map (\<lambda>f. \<lparr>home = fixture.home_team_id f, away = fixture.away_team_id f\<rparr>) (fixturesToInsert s1) =
          map (\<lambda>f. \<lparr>home = fixture.home_team_id f, away = fixture.away_team_id f\<rparr>) (fixturesToInsert s) @ [r]"
    using wk Cons.prems(1) by (simp add: assign_fixture_def Let_def)
  have len1: "length (weekSchedule s1) = length wb" using ws1 Cons.prems(1) by simp
  have "\<exists>s'. assign_all sid cmd g wb s1 rs = Inr s' \<and>
        matchday s' = matchday s1 + length rs \<and>
        length (weekSchedule s') = length wb \<and>
        (\<forall>w < length wb.
           week (weekSchedule s' ! w) = week (weekSchedule s1 ! w) \<and>
           matchdays (weekSchedule s' ! w) =
             matchdays (weekSchedule s1 ! w) @
             filter (\<lambda>m. find_week wb m 0 0 = w) [matchday s1 ..< matchday s1 + length rs]) \<and>
        map (\<lambda>f. \<lparr>home = fixture.home_team_id f, away = fixture.away_team_id f\<rparr>) (fixturesToInsert s') =
          map (\<lambda>f. \<lparr>home = fixture.home_team_id f, away = fixture.away_team_id f\<rparr>) (fixturesToInsert s1) @ rs"
    using Cons.prems md1 by (intro Cons.IH len1) auto
  then obtain s' where s': "assign_all sid cmd g wb s1 rs = Inr s'"
    and md': "matchday s' = matchday s1 + length rs"
    and len': "length (weekSchedule s') = length wb"
    and ws': "\<And>w. w < length wb \<Longrightarrow>
           week (weekSchedule s' ! w) = week (weekSchedule s1 ! w) \<and>
           matchdays (weekSchedule s' ! w) =
             matchdays (weekSchedule s1 ! w) @
             filter (\<lambda>m. find_week wb m 0 0 = w) [matchday s1 ..< matchday s1 + length rs]"
    and fx': "map (\<lambda>f. \<lparr>home = fixture.home_team_id f, away = fixture.away_team_id f\<rparr>) (fixturesToInsert s') =
          map (\<lambda>f. \<lparr>home = fixture.home_team_id f, away = fixture.away_team_id f\<rparr>) (fixturesToInsert s1) @ rs"
    by blast
  have range: "[matchday s ..< matchday s + length (r # rs)]
      = matchday s # [matchday s1 ..< matchday s1 + length rs]"
  proof -
    have "[matchday s ..< matchday s + Suc (length rs)]
        = matchday s # [Suc (matchday s) ..< matchday s + Suc (length rs)]"
      by (rule upt_conv_Cons) simp
    then show ?thesis using md1 by simp
  qed
  have per_week: "\<And>w. w < length wb \<Longrightarrow>
           week (weekSchedule s' ! w) = week (weekSchedule s ! w) \<and>
           matchdays (weekSchedule s' ! w) =
             matchdays (weekSchedule s ! w) @
             filter (\<lambda>m. find_week wb m 0 0 = w) [matchday s ..< matchday s + length (r # rs)]"
  proof -
    fix w assume w: "w < length wb"
    show "week (weekSchedule s' ! w) = week (weekSchedule s ! w) \<and>
           matchdays (weekSchedule s' ! w) =
             matchdays (weekSchedule s ! w) @
             filter (\<lambda>m. find_week wb m 0 0 = w) [matchday s ..< matchday s + length (r # rs)]"
    proof (cases "?wk = w")
      case True
      then show ?thesis
        using ws' [OF w] ws1 w Cons.prems(1) unfolding range by simp
    next
      case False
      then show ?thesis
        using ws' [OF w] ws1 w Cons.prems(1) unfolding range by simp
    qed
  qed
  show ?case
    using s1 s' md' md1 len' per_week fx' fx1 by simp
qed

lemma week_buckets_explicit:
  "week_buckets M =
     [M div 4 + (if 0 < M mod 4 then 1 else 0), M div 4 + (if 1 < M mod 4 then 1 else 0),
      M div 4 + (if 2 < M mod 4 then 1 else 0), M div 4]"
proof -
  have "[0 ..< 4] = [0, 1, 2, 3::nat]" by (simp add: upt_rec)
  moreover have "\<not> 3 < M mod 4" by simp
  ultimately show ?thesis by (simp add: week_buckets_def weeks_def Let_def)
qed

lemma length_week_buckets: "length (week_buckets M) = weeks"
  by (simp add: week_buckets_def Let_def)

lemma sum_week_buckets: "sum_list (week_buckets M) = M"
proof -
  have "M div 4 + (if 0 < M mod 4 then 1 else 0) + (M div 4 + (if 1 < M mod 4 then 1 else 0))
        + (M div 4 + (if 2 < M mod 4 then 1 else 0)) + M div 4 = M"
    by presburger
  then show ?thesis
    unfolding week_buckets_explicit by simp
qed

lemma build_schedule_result:
  fixes teamIds :: "string list"
  defines "M \<equiv> length teamIds * (length teamIds - 1)"
  shows "\<exists>s. build_schedule seasonId teamIds computeMatchDate groupNumber = Inr s \<and>
           matchday s = M + 1 \<and>
           length (weekSchedule s) = weeks \<and>
           (\<forall>w < weeks.
              week (weekSchedule s ! w) = w + 1 \<and>
              matchdays (weekSchedule s ! w) =
                filter (\<lambda>m. find_week (week_buckets M) m 0 0 = w) [1 ..< M + 1]) \<and>
           map (\<lambda>f. \<lparr>home = fixture.home_team_id f, away = fixture.away_team_id f\<rparr>)
             (fixturesToInsert s) = round_robin teamIds"
proof -
  let ?wb = "week_buckets M"
  let ?s0 = "\<lparr>matchday = 1, weekSchedule = init_week_schedule ?wb, fixturesToInsert = []\<rparr>"
  have len: "length (round_robin teamIds) = M"
    by (simp add: M_def length_round_robin)
  have bs: "build_schedule seasonId teamIds computeMatchDate groupNumber
      = assign_all seasonId computeMatchDate groupNumber ?wb ?s0 (round_robin teamIds)"
    by (simp add: build_schedule_def Let_def build_raw_round_robin len)
  have l0: "length (weekSchedule ?s0) = length ?wb"
    by (simp add: init_week_schedule_def)
  have "\<exists>s'. assign_all seasonId computeMatchDate groupNumber ?wb ?s0 (round_robin teamIds) = Inr s' \<and>
        matchday s' = matchday ?s0 + length (round_robin teamIds) \<and>
        length (weekSchedule s') = length ?wb \<and>
        (\<forall>w < length ?wb.
           week (weekSchedule s' ! w) = week (weekSchedule ?s0 ! w) \<and>
           matchdays (weekSchedule s' ! w) =
             matchdays (weekSchedule ?s0 ! w) @
             filter (\<lambda>m. find_week ?wb m 0 0 = w)
               [matchday ?s0 ..< matchday ?s0 + length (round_robin teamIds)]) \<and>
        map (\<lambda>f. \<lparr>home = fixture.home_team_id f, away = fixture.away_team_id f\<rparr>) (fixturesToInsert s') =
          map (\<lambda>f. \<lparr>home = fixture.home_team_id f, away = fixture.away_team_id f\<rparr>) (fixturesToInsert ?s0)
            @ round_robin teamIds"
    by (rule assign_all_inv [OF l0]) (simp_all add: len sum_week_buckets)
  then obtain s' where
    a: "assign_all seasonId computeMatchDate groupNumber ?wb ?s0 (round_robin teamIds) = Inr s'"
    and b: "matchday s' = matchday ?s0 + length (round_robin teamIds)"
    and c: "length (weekSchedule s') = length ?wb"
    and d: "\<And>w. w < length ?wb \<Longrightarrow>
           week (weekSchedule s' ! w) = week (weekSchedule ?s0 ! w) \<and>
           matchdays (weekSchedule s' ! w) =
             matchdays (weekSchedule ?s0 ! w) @
             filter (\<lambda>m. find_week ?wb m 0 0 = w)
               [matchday ?s0 ..< matchday ?s0 + length (round_robin teamIds)]"
    and e: "map (\<lambda>f. \<lparr>home = fixture.home_team_id f, away = fixture.away_team_id f\<rparr>) (fixturesToInsert s') =
          map (\<lambda>f. \<lparr>home = fixture.home_team_id f, away = fixture.away_team_id f\<rparr>) (fixturesToInsert ?s0)
            @ round_robin teamIds"
    by blast
  have d': "\<And>w. w < weeks \<Longrightarrow>
              week (weekSchedule s' ! w) = w + 1 \<and>
              matchdays (weekSchedule s' ! w) =
                filter (\<lambda>m. find_week ?wb m 0 0 = w) [1 ..< M + 1]"
    using d by (simp add: length_week_buckets init_week_schedule_def len)
  show ?thesis
    using a b c d' e by (simp add: bs len length_week_buckets)
qed

lemma week_size:
  assumes "w < length wb" "sum_list wb = M"
  shows "length (filter (\<lambda>m. find_week wb m 0 0 = w) [1 ..< M + 1]) = wb ! w"
proof -
  let ?lo = "sum_list (take w wb)"
  have hi: "sum_list (take (Suc w) wb) = ?lo + wb ! w"
    using assms(1) by (simp add: take_Suc_conv_app_nth)
  have le: "sum_list (take (Suc w) wb) \<le> M"
    using sum_take_mono [of "Suc w" "length wb" wb] assms by simp
  have "{m. find_week wb m 0 0 = w} \<inter> set [1 ..< M + 1] = {?lo <.. ?lo + wb ! w}"
  proof (rule set_eqI)
    fix m
    show "m \<in> {m. find_week wb m 0 0 = w} \<inter> set [1 ..< M + 1] \<longleftrightarrow> m \<in> {?lo <.. ?lo + wb ! w}"
    proof (cases "0 < m \<and> m \<le> M")
      case True
      then show ?thesis
        using find_week_iff [of m wb w] assms hi by auto
    next
      case False
      then show ?thesis using le hi by auto
    qed
  qed
  moreover have "length (filter (\<lambda>m. find_week wb m 0 0 = w) [1 ..< M + 1])
      = card ({m. find_week wb m 0 0 = w} \<inter> set [1 ..< M + 1])"
    by (rule distinct_length_filter) simp
  ultimately show ?thesis by simp
qed

text \<open>
  C1. For distinct team identifiers the scheduler runs to the end and hands the store
  exactly \<open>N * (N - 1)\<close> fixtures, and every ordered pair of two different teams of the
  input is the (home, away) pair of exactly one of them. This holds whatever the store
  answers.
\<close>

theorem schedule_double_round_robin:
  assumes "distinct teamIds"
  shows "\<exists>run. generateAndPersistMatchSchedule insertError updateError
                  seasonId teamIds computeMatchDate groupNumber = Inr run \<and>
               length (inserted run) = length teamIds * (length teamIds - 1) \<and>
               (\<forall>i \<in> set teamIds. \<forall>j \<in> set teamIds. i \<noteq> j \<longrightarrow>
                  length (filter (\<lambda>f. fixture.home_team_id f = i \<and> fixture.away_team_id f = j)
                            (inserted run)) = 1)"
proof -
  obtain s where s: "build_schedule seasonId teamIds computeMatchDate groupNumber = Inr s"
    and fx: "map (\<lambda>f. \<lparr>home = fixture.home_team_id f, away = fixture.away_team_id f\<rparr>)
               (fixturesToInsert s) = round_robin teamIds"
    using build_schedule_result [of seasonId teamIds computeMatchDate groupNumber] by blast
  have len: "length (fixturesToInsert s) = length teamIds * (length teamIds - 1)"
    using arg_cong [OF fx, of length] by (simp add: length_round_robin)
  have once: "length (filter (\<lambda>f. fixture.home_team_id f = i \<and> fixture.away_team_id f = j)
                 (fixturesToInsert s)) = 1"
    if "i \<in> set teamIds" "j \<in> set teamIds" "i \<noteq> j" for i j
  proof -
    have "length (filter (\<lambda>f. fixture.home_team_id f = i \<and> fixture.away_team_id f = j)
                 (fixturesToInsert s))
        = length (filter (\<lambda>r. home r = i \<and> away r = j)
            (map (\<lambda>f. \<lparr>home = fixture.home_team_id f, away = fixture.away_team_id f\<rparr>)
               (fixturesToInsert s)))"
      by (simp add: filter_map comp_def)
    also have "\<dots> = 1"
      unfolding fx using count_round_robin [OF assms, of i j] that by simp
    finally show ?thesis .
  qed
  obtain run where run:
    "generateAndPersistMatchSchedule insertError updateError
       seasonId teamIds computeMatchDate groupNumber = Inr run"
    and ins: "inserted run = fixturesToInsert s"
    using s
    by (cases insertError; cases updateError) (auto simp: generateAndPersistMatchSchedule_def)
  show ?thesis
    using run ins len once by auto
qed

theorem schedule_double_round_robin_witness:
  "distinct [''A'', ''B'', ''C''] \<and>
   (\<exists>run. generateAndPersistMatchSchedule None None ''s1'' [''A'', ''B'', ''C'']
             day_of_matchday 1 = Inr run \<and>
          length (inserted run) = 6 \<and>
          length (filter (\<lambda>f. fixture.home_team_id f = ''C'' \<and> fixture.away_team_id f = ''A'')
                    (inserted run)) = 1)"
proof -
  have d: "distinct [''A'', ''B'', ''C'']" by simp
  show ?thesis
    using d schedule_double_round_robin [OF d, of None None "''s1''" day_of_matchday 1]
    by auto
qed

text \<open>
  C2. With \<open>M = N * (N - 1)\<close> matchdays and the scheduler's four weeks, the week buckets
  are \<open>M div 4\<close> each with one more in the first \<open>M mod 4\<close>, and the week schedule
  that steps 1 to 4 build holds exactly that many matchdays in each week; the sizes add up
  to \<open>M\<close> and no week holds more than one matchday more than another. This holds for
  every team list.
\<close>

theorem week_buckets_balanced:
  fixes teamIds :: "string list"
  defines "M \<equiv> length teamIds * (length teamIds - 1)"
  shows "\<exists>s. build_schedule seasonId teamIds computeMatchDate groupNumber = Inr s \<and>
           week_buckets (length (build_raw teamIds)) =
             map (\<lambda>w. M div weeks + (if w < M mod weeks then 1 else 0)) [0 ..< weeks] \<and>
           map (\<lambda>e. length (matchdays e)) (weekSchedule s) =
             map (\<lambda>w. M div weeks + (if w < M mod weeks then 1 else 0)) [0 ..< weeks] \<and>
           sum_list (map (\<lambda>e. length (matchdays e)) (weekSchedule s)) = M \<and>
           (\<forall>e \<in> set (weekSchedule s). \<forall>e' \<in> set (weekSchedule s).
              length (matchdays e) \<le> length (matchdays e') + 1)"
proof -
  let ?wb = "week_buckets M"
  obtain s where s: "build_schedule seasonId teamIds computeMatchDate groupNumber = Inr s"
    and len: "length (weekSchedule s) = weeks"
    and md: "\<And>w. w < weeks \<Longrightarrow> matchdays (weekSchedule s ! w) =
                filter (\<lambda>m. find_week ?wb m 0 0 = w) [1 ..< M + 1]"
    using build_schedule_result [of seasonId teamIds computeMatchDate groupNumber]
    unfolding M_def by blast
  have raw: "length (build_raw teamIds) = M"
    by (simp add: M_def build_raw_round_robin length_round_robin)
  have wb: "?wb = map (\<lambda>w. M div weeks + (if w < M mod weeks then 1 else 0)) [0 ..< weeks]"
    by (simp add: week_buckets_def Let_def)
  have sizes: "map (\<lambda>e. length (matchdays e)) (weekSchedule s) = ?wb"
  proof (rule nth_equalityI)
    show "length (map (\<lambda>e. length (matchdays e)) (weekSchedule s)) = length ?wb"
      by (simp add: len length_week_buckets)
  next
    fix w assume "w < length (map (\<lambda>e. length (matchdays e)) (weekSchedule s))"
    then have w: "w < weeks" by (simp add: len)
    then show "map (\<lambda>e. length (matchdays e)) (weekSchedule s) ! w = ?wb ! w"
      using md [OF w] week_size [of w ?wb M] by (simp add: len length_week_buckets sum_week_buckets)
  qed
  have close: "a \<le> b + 1" if "a \<in> set ?wb" "b \<in> set ?wb" for a b
    using that unfolding week_buckets_explicit by (auto split: if_splits)
  have balanced: "\<forall>e \<in> set (weekSchedule s). \<forall>e' \<in> set (weekSchedule s).
              length (matchdays e) \<le> length (matchdays e') + 1"
  proof (intro ballI)
    fix e e' assume "e \<in> set (weekSchedule s)" "e' \<in> set (weekSchedule s)"
    then have "length (matchdays e) \<in> set (map (\<lambda>e. length (matchdays e)) (weekSchedule s))"
      and "length (matchdays e') \<in> set (map (\<lambda>e. length (matchdays e)) (weekSchedule s))"
      by auto
    then show "length (matchdays e) \<le> length (matchdays e') + 1"
      unfolding sizes by (rule close)
  qed
  have total: "sum_list (map (\<lambda>e. length (matchdays e)) (weekSchedule s)) = M"
    by (simp only: sizes sum_week_buckets)
  have buckets: "week_buckets (length (build_raw teamIds)) =
      map (\<lambda>w. M div weeks + (if w < M mod weeks then 1 else 0)) [0 ..< weeks]"
    using raw wb by simp
  have held: "map (\<lambda>e. length (matchdays e)) (weekSchedule s) =
      map (\<lambda>w. M div weeks + (if w < M mod weeks then 1 else 0)) [0 ..< weeks]"
    using sizes wb by simp
  show ?thesis
    using s buckets held total balanced by blast
qed

theorem week_buckets_balanced_witness:
  "\<exists>s. build_schedule ''s1'' [''A'', ''B'', ''C''] day_of_matchday 1 = Inr s \<and>
       map (\<lambda>e. length (matchdays e)) (weekSchedule s) = [2, 2, 1, 1] \<and>
       sum_list (map (\<lambda>e. length (matchdays e)) (weekSchedule s)) = 6"
proof -
  have w: "[0 ..< weeks] = [0, 1, 2, 3]" by (simp add: weeks_def upt_rec)
  show ?thesis
    using week_buckets_balanced [of "''s1''" "[''A'', ''B'', ''C'']" day_of_matchday 1]
    unfolding w by (auto simp: weeks_def)
qed

text \<open>
  C7. With fewer than two teams (an empty or a singleton team list) the scheduler builds
  no fixture and throws nothing: the payload of the insert is empty, and with a store that
  reports no error the method returns success without an error message. The store's answers
  are the only thing that decides between success and failure: the method reports success
  exactly when neither the insert nor the update reports an error.
\<close>

theorem degenerate_schedule:
  assumes "length teamIds < 2"
  shows "\<exists>run. generateAndPersistMatchSchedule insertError updateError
                  seasonId teamIds computeMatchDate groupNumber = Inr run \<and>
               inserted run = [] \<and>
               (insertError = None \<and> updateError = None \<longrightarrow>
                  returned run = \<lparr>success = True, error = None\<rparr>) \<and>
               (success (returned run) \<longleftrightarrow> insertError = None \<and> updateError = None) \<and>
               error (returned run) =
                 (case insertError of Some msg \<Rightarrow> Some msg | None \<Rightarrow> updateError)"
proof -
  have "teamIds = [] \<or> (\<exists>t. teamIds = [t])"
    using assms by (cases teamIds) (auto simp: length_Suc_conv)
  then have raw: "build_raw teamIds = []"
    by (auto simp: build_raw_def)
  have "build_schedule seasonId teamIds computeMatchDate groupNumber =
          Inr \<lparr>matchday = 1, weekSchedule = init_week_schedule (week_buckets 0),
               fixturesToInsert = []\<rparr>"
    by (simp add: build_schedule_def raw)
  then show ?thesis
    by (simp add: generateAndPersistMatchSchedule_def split: option.splits)
qed

theorem degenerate_schedule_witness:
  "length [''A''] < 2 \<and>
   (\<exists>run. generateAndPersistMatchSchedule None None ''s1'' [''A''] day_of_matchday 1 = Inr run \<and>
          inserted run = [] \<and> returned run = \<lparr>success = True, error = None\<rparr>) \<and>
   (\<exists>run. generateAndPersistMatchSchedule None None ''s1'' [] day_of_matchday 1 = Inr run \<and>
          inserted run = [] \<and> returned run = \<lparr>success = True, error = None\<rparr>)"
proof -
  have l: "length [''A''] < 2" and l0: "length ([] :: string list) < 2" by simp_all
  show ?thesis
    using l degenerate_schedule [OF l, of None None "''s1''" day_of_matchday 1]
      degenerate_schedule [OF l0, of None None "''s1''" day_of_matchday 1]
    by auto
qed

section \<open>The standings\<close>

subsection \<open>The standings object\<close>

lemma keys_obj_set:
  "map fst (obj_set k v obj) = (if k \<in> set (map fst obj) then map fst obj else map fst obj @ [k])"
proof (induction obj)
  case Nil
  then show ?case by simp
next
  case (Cons kv obj)
  obtain k' v' where kv: "kv = (k', v')" by (cases kv)
  show ?case
  proof (cases "k' = k")
    case True
    then show ?thesis using kv by simp
  next
    case False
    then show ?thesis using kv Cons.IH by simp
  qed
qed

lemma map_of_obj_set: "map_of (obj_set k v obj) = (map_of obj)(k \<mapsto> v)"
  by (induction obj) (auto simp: fun_eq_iff)

lemma map_of_keys: "map_of obj k \<noteq> None \<longleftrightarrow> k \<in> set (map fst obj)"
  by (simp add: map_of_eq_None_iff)

lemma proto_is_member: "''__proto__'' \<in> set Object_prototype_members"
  by (simp add: Object_prototype_members_def)

lemma plain_id_not_proto: "plain_id k \<Longrightarrow> k \<noteq> ''__proto__''"
  using proto_is_member by (auto simp: plain_id_def)

lemma js_get_side_ok:
  assumes "side_ok standings k"
  shows "js_get standings k = Absent \<or> (\<exists>v. js_get standings k = OwnEntry v) \<or>
         (\<exists>p. js_get standings k = ProtoEntry p)"
proof (cases "map_of (own standings) k")
  case (Some v)
  then show ?thesis by (simp add: js_get_def)
next
  case None
  then have "k \<notin> set (map fst (own standings))"
    using map_of_keys [of "own standings" k] by simp
  then have "(k = ''__proto__'' \<and> proto standings \<noteq> None) \<or> plain_id k"
    using assms by (simp add: side_ok_def)
  then show ?thesis
  proof
    assume "k = ''__proto__'' \<and> proto standings \<noteq> None"
    then show ?thesis using None by (auto simp: js_get_def)
  next
    assume p: "plain_id k"
    then have "k \<noteq> ''__proto__''" by (rule plain_id_not_proto)
    then show ?thesis
      using p None by (cases "proto standings") (simp_all add: js_get_def plain_id_def)
  qed
qed

lemma js_get_OwnEntry: "js_get standings k = OwnEntry v \<longleftrightarrow> map_of (own standings) k = Some v"
proof
  assume a: "js_get standings k = OwnEntry v"
  show "map_of (own standings) k = Some v"
  proof (cases "map_of (own standings) k")
    case None
    then have "js_get standings k \<noteq> OwnEntry v"
      by (cases "proto standings")
         (auto simp: js_get_def inherited_field_def split: if_splits)
    then show ?thesis using a by simp
  next
    case (Some w)
    then show ?thesis using a by (simp add: js_get_def)
  qed
next
  assume "map_of (own standings) k = Some v"
  then show "js_get standings k = OwnEntry v" by (simp add: js_get_def)
qed

lemma js_get_not_own:
  "map_of (own standings) k = None \<Longrightarrow> js_get standings k \<noteq> OwnEntry v"
  using js_get_OwnEntry [of standings k v] by simp

lemma js_get_ProtoEntry:
  "js_get standings k = ProtoEntry p \<Longrightarrow>
   map_of (own standings) k = None \<and> proto standings = Some p"
  by (cases "map_of (own standings) k"; cases "proto standings")
     (auto simp: js_get_def inherited_field_def split: if_splits)

text \<open>What a guarded block that returns has done.\<close>

lemma guarded_Inr:
  assumes "guarded k f on_object standings = Inr standings'"
    and "\<And>s s'. on_object s = Inr s' \<Longrightarrow> s' = s"
  shows "map fst (own standings') = map fst (own standings)"
    and "map_of (own standings') k' =
           (if k' = k then map_option f (map_of (own standings) k) else map_of (own standings) k')"
    and "proto standings' = None \<longleftrightarrow> proto standings = None"
proof -
  have all: "map fst (own standings') = map fst (own standings) \<and>
     map_of (own standings') k' =
           (if k' = k then map_option f (map_of (own standings) k) else map_of (own standings) k') \<and>
     (proto standings' = None \<longleftrightarrow> proto standings = None)"
  proof (cases "js_get standings k")
    case Absent
    then have "standings' = standings" using assms(1) by (simp add: guarded_def)
    moreover have "map_of (own standings) k = None"
      using Absent js_get_OwnEntry [of standings k] by (cases "map_of (own standings) k") auto
    ultimately show ?thesis by simp
  next
    case (OwnEntry v)
    then have s': "standings' = standings\<lparr>own := obj_set k (f v) (own standings)\<rparr>"
      using assms(1) by (simp add: guarded_def)
    have v: "map_of (own standings) k = Some v"
      using OwnEntry by (simp add: js_get_OwnEntry)
    then have "k \<in> set (map fst (own standings))"
      using map_of_keys [of "own standings" k] by simp
    then show ?thesis
      using v by (simp add: s' keys_obj_set map_of_obj_set)
  next
    case (ProtoEntry p)
    then have s': "standings' = standings\<lparr>proto := Some (f p)\<rparr>"
      using assms(1) by (simp add: guarded_def)
    have "map_of (own standings) k = None" "proto standings = Some p"
      using js_get_ProtoEntry [OF ProtoEntry] by simp_all
    then show ?thesis by (simp add: s')
  next
    case ForeignObject
    then have "standings' = standings" using assms by (simp add: guarded_def)
    moreover have "map_of (own standings) k = None"
      using ForeignObject js_get_OwnEntry [of standings k] by (cases "map_of (own standings) k") auto
    ultimately show ?thesis by simp
  next
    case ForeignPrimitive
    then show ?thesis using assms(1) by (simp add: guarded_def)
  qed
  show "map fst (own standings') = map fst (own standings)"
    and "map_of (own standings') k' =
           (if k' = k then map_option f (map_of (own standings) k) else map_of (own standings) k')"
    and "proto standings' = None \<longleftrightarrow> proto standings = None"
    using all by blast+
qed

lemma guarded_runs:
  assumes "side_ok standings k"
  shows "\<exists>standings'. guarded k f on_object standings = Inr standings'"
  using js_get_side_ok [OF assms] by (auto simp: guarded_def)

lemma side_ok_same:
  "map fst (own standings') = map fst (own standings) \<Longrightarrow>
   (proto standings' = None \<longleftrightarrow> proto standings = None) \<Longrightarrow>
   side_ok standings' k = side_ok standings k"
  by (simp add: side_ok_def)

lemma count_played_Inr:
  assumes "count_played k standings = Inr standings'"
  shows "map fst (own standings') = map fst (own standings)"
    and "map_of (own standings') k' =
           (if k' = k then map_option played (map_of (own standings) k) else map_of (own standings) k')"
    and "proto standings' = None \<longleftrightarrow> proto standings = None"
  using guarded_Inr [OF assms [unfolded count_played_def]] by auto

lemma update_statistics_Inr:
  assumes "update_statistics k won lost standings = Inr standings'"
  shows "map fst (own standings') = map fst (own standings)"
    and "map_of (own standings') k' =
           (if k' = k then map_option (record_result won lost) (map_of (own standings) k)
            else map_of (own standings) k')"
    and "proto standings' = None \<longleftrightarrow> proto standings = None"
  using guarded_Inr [OF assms [unfolded update_statistics_def]] by auto

subsection \<open>Initial standings\<close>

lemma js_set_keys:
  assumes "''__proto__'' \<notin> set (map fst (own standings))"
  shows "map fst (own (js_set k v standings)) =
           (if k = ''__proto__'' \<or> k \<in> set (map fst (own standings))
            then map fst (own standings) else map fst (own standings) @ [k])"
    and "proto (js_set k v standings) = None \<longleftrightarrow> proto standings = None \<and> k \<noteq> ''__proto__''"
proof -
  have none: "map_of (own standings) ''__proto__'' = None"
    using assms map_of_keys [of "own standings" "''__proto__''"] by simp
  show "map fst (own (js_set k v standings)) =
           (if k = ''__proto__'' \<or> k \<in> set (map fst (own standings))
            then map fst (own standings) else map fst (own standings) @ [k])"
    using none by (simp add: js_set_def keys_obj_set)
  show "proto (js_set k v standings) = None \<longleftrightarrow> proto standings = None \<and> k \<noteq> ''__proto__''"
    using none by (simp add: js_set_def)
qed

lemma js_set_entry:
  assumes "''__proto__'' \<notin> set (map fst (own standings))"
    and "map_of (own (js_set k v standings)) k' = Some w"
  shows "map_of (own standings) k' = Some w \<or> (k' = k \<and> w = v)"
  using assms(2) by (auto simp: js_set_def map_of_obj_set split: if_splits)

lemma init_fold_keys:
  "distinct (map fst (own st)) \<Longrightarrow> ''__proto__'' \<notin> fst ` set (own st) \<Longrightarrow>
   distinct (map fst (own (fold (\<lambda>reg s. js_set (user_id reg) (mk reg) s) regs st))) \<and>
   fst ` set (own (fold (\<lambda>reg s. js_set (user_id reg) (mk reg) s) regs st)) =
     (fst ` set (own st) \<union> user_id ` set regs) - {''__proto__''} \<and>
   (proto (fold (\<lambda>reg s. js_set (user_id reg) (mk reg) s) regs st) = None \<longleftrightarrow>
      proto st = None \<and> ''__proto__'' \<notin> user_id ` set regs)"
proof (induction regs arbitrary: st)
  case Nil
  then show ?case by auto
next
  case (Cons reg regs)
  let ?st1 = "js_set (user_id reg) (mk reg) st"
  let ?F = "\<lambda>reg s. js_set (user_id reg) (mk reg) s"
  have nk: "''__proto__'' \<notin> set (map fst (own st))"
    using Cons.prems(2) by simp
  have k1: "map fst (own ?st1) =
           (if user_id reg = ''__proto__'' \<or> user_id reg \<in> set (map fst (own st))
            then map fst (own st) else map fst (own st) @ [user_id reg])"
    and p1: "proto ?st1 = None \<longleftrightarrow> proto st = None \<and> user_id reg \<noteq> ''__proto__''"
    using js_set_keys [OF nk] by blast+
  have d: "distinct (map fst (own ?st1))"
    using Cons.prems(1) unfolding k1 by auto
  define K where "K = fst ` set (own st)"
  define K1 where "K1 = fst ` set (own ?st1)"
  have "set (map fst (own ?st1)) =
      (if user_id reg = ''__proto__'' \<or> user_id reg \<in> set (map fst (own st))
       then set (map fst (own st)) else insert (user_id reg) (set (map fst (own st))))"
    unfolding k1 by simp
  then have s: "K1 = (if user_id reg = ''__proto__'' \<or> user_id reg \<in> K then K
                      else insert (user_id reg) K)"
    unfolding K_def K1_def by simp
  have nK: "''__proto__'' \<notin> K" using Cons.prems(2) by (simp add: K_def)
  have n: "''__proto__'' \<notin> fst ` set (own ?st1)"
    using s nK unfolding K1_def [symmetric] by (auto split: if_splits)
  from Cons.IH [OF d n]
  have A: "distinct (map fst (own (fold ?F regs ?st1)))"
    and B: "fst ` set (own (fold ?F regs ?st1)) = (K1 \<union> user_id ` set regs) - {''__proto__''}"
    and C: "proto (fold ?F regs ?st1) = None \<longleftrightarrow>
      proto ?st1 = None \<and> ''__proto__'' \<notin> user_id ` set regs"
    unfolding K1_def by blast+
  have B': "(K1 \<union> user_id ` set regs) - {''__proto__''} =
      (K \<union> user_id ` set (reg # regs)) - {''__proto__''}"
    using s nK by (auto split: if_splits)
  have C': "proto (fold ?F regs ?st1) = None \<longleftrightarrow>
      proto st = None \<and> ''__proto__'' \<notin> user_id ` set (reg # regs)"
    using C p1 by auto
  show ?case
    using A B B' C' unfolding K_def by simp
qed

lemma init_fold_roster_order:
  "distinct (map user_id regs) \<Longrightarrow> ''__proto__'' \<notin> set (map fst (own st)) \<Longrightarrow>
   set (map fst (own st)) \<inter> user_id ` set regs = {} \<Longrightarrow>
   map fst (own (fold (\<lambda>reg s. js_set (user_id reg) (mk reg) s) regs st)) =
     map fst (own st) @ filter (\<lambda>k. k \<noteq> ''__proto__'') (map user_id regs)"
proof (induction regs arbitrary: st)
  case Nil
  then show ?case by simp
next
  case (Cons reg regs)
  let ?st1 = "js_set (user_id reg) (mk reg) st"
  have fresh: "user_id reg \<notin> set (map fst (own st))"
    using Cons.prems(3) by auto
  have k1: "map fst (own ?st1) =
           (if user_id reg = ''__proto__'' then map fst (own st)
            else map fst (own st) @ [user_id reg])"
    using js_set_keys(1) [OF Cons.prems(2), of "user_id reg" "mk reg"] fresh by simp
  have n: "''__proto__'' \<notin> set (map fst (own ?st1))"
    using Cons.prems(2) unfolding k1 by auto
  have disj: "set (map fst (own ?st1)) \<inter> user_id ` set regs = {}"
    using Cons.prems(1,3) unfolding k1 by auto
  have "distinct (map user_id regs)" using Cons.prems(1) by simp
  from Cons.IH [OF this n disj] show ?case
    unfolding k1 by simp
qed

lemma init_fold_entries:
  "''__proto__'' \<notin> set (map fst (own st)) \<Longrightarrow>
   (\<And>k v. map_of (own st) k = Some v \<Longrightarrow> P k v) \<Longrightarrow> (\<And>reg. P (user_id reg) (mk reg)) \<Longrightarrow>
   map_of (own (fold (\<lambda>reg s. js_set (user_id reg) (mk reg) s) regs st)) k = Some v \<Longrightarrow> P k v"
proof (induction regs arbitrary: st)
  case Nil
  then show ?case by simp
next
  case (Cons reg regs)
  let ?st1 = "js_set (user_id reg) (mk reg) st"
  have n: "''__proto__'' \<notin> set (map fst (own ?st1))"
    using js_set_keys(1) [OF Cons.prems(1), of "user_id reg" "mk reg"] Cons.prems(1)
    by (auto split: if_splits)
  have "\<And>k v. map_of (own ?st1) k = Some v \<Longrightarrow> P k v"
    using js_set_entry [OF Cons.prems(1)] Cons.prems(2,3) by blast
  then show ?case
    using Cons.IH [OF n] Cons.prems(3,4) by simp
qed

lemma init_standings_None: "init_standings None = \<lparr>own = [], proto = None\<rparr>"
  by (simp add: init_standings_def)

lemma init_standings_fold:
  "init_standings (Some regs) =
     fold (\<lambda>reg s. js_set (user_id reg)
             \<lparr>team_id = user_id reg, team_name = registration.team_name reg, is_cpu = False,
              position = 0, matches_played = 0, encounters_won = 0, encounters_lost = 0,
              individual_matches_won = 0, individual_matches_lost = 0, points = 0,
              form = []\<rparr> s) regs \<lparr>own = [], proto = None\<rparr>"
  by (simp add: init_standings_def)

lemma init_fold_empty:
  "distinct (map fst (own (fold (\<lambda>reg s. js_set (user_id reg) (mk reg) s) regs
      \<lparr>own = [], proto = None\<rparr>)))"
  "fst ` set (own (fold (\<lambda>reg s. js_set (user_id reg) (mk reg) s) regs
      \<lparr>own = [], proto = None\<rparr>)) = user_id ` set regs - {''__proto__''}"
  "proto (fold (\<lambda>reg s. js_set (user_id reg) (mk reg) s) regs \<lparr>own = [], proto = None\<rparr>) = None
     \<longleftrightarrow> ''__proto__'' \<notin> user_id ` set regs"
  using init_fold_keys [of "\<lparr>own = [], proto = None\<rparr>" mk regs] by simp_all

lemma init_standings_Some_distinct: "distinct (map fst (own (init_standings (Some regs))))"
  unfolding init_standings_fold by (rule init_fold_empty)

lemma init_standings_Some_keys:
  "fst ` set (own (init_standings (Some regs))) = user_id ` set regs - {''__proto__''}"
  unfolding init_standings_fold by (rule init_fold_empty)

lemma init_standings_Some_proto:
  "proto (init_standings (Some regs)) = None \<longleftrightarrow> ''__proto__'' \<notin> user_id ` set regs"
  unfolding init_standings_fold by (rule init_fold_empty)

text \<open>The team identifiers of the roster.\<close>

lemma init_standings_distinct: "distinct (map fst (own (init_standings registrations)))"
  by (cases registrations) (simp_all add: init_standings_None init_standings_Some_distinct)


lemma init_standings_side_ok:
  assumes "k \<in> (case registrations of None \<Rightarrow> {} | Some regs \<Rightarrow> user_id ` set regs) \<or> plain_id k"
  shows "side_ok (init_standings registrations) k"
proof (cases registrations)
  case None
  then show ?thesis using assms by (simp add: side_ok_def)
next
  case (Some regs)
  show ?thesis
  proof (cases "plain_id k")
    case True
    then show ?thesis by (simp add: side_ok_def)
  next
    case False
    then have k: "k \<in> user_id ` set regs" using assms Some by simp
    show ?thesis
    proof (cases "k = ''__proto__''")
      case True
      then have "proto (init_standings (Some regs)) \<noteq> None"
        using k by (simp add: init_standings_Some_proto)
      then show ?thesis using True Some by (simp add: side_ok_def)
    next
      case False
      then have "k \<in> fst ` set (own (init_standings (Some regs)))"
        using k unfolding init_standings_Some_keys by simp
      then show ?thesis using Some by (simp add: side_ok_def)
    qed
  qed
qed

lemma init_standings_roster_order:
  assumes "distinct (map user_id regs)"
  shows "map fst (own (init_standings (Some regs))) =
           filter (\<lambda>k. k \<noteq> ''__proto__'') (map user_id regs)"
proof -
  have "\<And>mk. map fst (own (fold (\<lambda>reg s. js_set (user_id reg) (mk reg) s) regs
            \<lparr>own = [], proto = None\<rparr>)) =
          filter (\<lambda>k. k \<noteq> ''__proto__'') (map user_id regs)"
    using init_fold_roster_order [of regs "\<lparr>own = [], proto = None\<rparr>"] assms by simp
  then show ?thesis
    unfolding init_standings_fold .
qed

lemma init_standings_entry:
  assumes "map_of (own (init_standings registrations)) k = Some v"
  shows "team_id v = k \<and> matches_played v = 0 \<and> encounters_won v = 0 \<and> encounters_lost v = 0 \<and>
         individual_matches_won v = 0 \<and> individual_matches_lost v = 0 \<and> points v = 0 \<and> form v = []"
proof (cases registrations)
  case None
  then show ?thesis using assms by (simp add: init_standings_None)
next
  case (Some regs)
  let ?P = "\<lambda>k v. team_id v = k \<and> matches_played v = 0 \<and> encounters_won v = 0 \<and>
         encounters_lost v = 0 \<and> individual_matches_won v = 0 \<and>
         individual_matches_lost v = 0 \<and> points v = 0 \<and> form v = ([] :: string list)"
  have "?P k v"
  proof (rule init_fold_entries [where st = "\<lparr>own = [], proto = None\<rparr>" and regs = regs and P = ?P])
    show "map_of (own (fold (\<lambda>reg s. js_set (user_id reg)
             \<lparr>team_id = user_id reg, team_name = registration.team_name reg, is_cpu = False,
              position = 0, matches_played = 0, encounters_won = 0, encounters_lost = 0,
              individual_matches_won = 0, individual_matches_lost = 0, points = 0,
              form = []\<rparr> s) regs \<lparr>own = [], proto = None\<rparr>)) k = Some v"
      using assms unfolding Some init_standings_fold .
  qed simp_all
  then show ?thesis .
qed

subsection \<open>One encounter\<close>

lemma count_wins_total:
  "count_wins rs (h, a) =
     (if NullEntry \<in> set rs then Inl TypeError
      else Inr (h + int (length (filter (\<lambda>r. r = Entry (Some ''home'')) rs)),
                a + int (length (filter (\<lambda>r. r \<noteq> Entry (Some ''home'')) rs))))"
  by (induction rs "(h, a)" arbitrary: h a rule: count_wins.induct) auto

lemma tally_array:
  "tally (Json (JArray rs)) =
     (if NullEntry \<in> set rs then Inl TypeError
      else Inr (int (length (filter (\<lambda>r. r = Entry (Some ''home'')) rs)),
                int (length (filter (\<lambda>r. r \<noteq> Entry (Some ''home'')) rs))))"
  by (simp add: tally_def JSON_parse_results_def forEach_results_def count_wins_total)

lemma tally_counts_all:
  assumes "tally (Json (JArray rs)) = Inr (h, a)"
  shows "h + a = int (length rs)"
proof -
  have "length (filter (\<lambda>r. r = Entry (Some ''home'')) rs) +
        length (filter (\<lambda>r. r \<noteq> Entry (Some ''home'')) rs) = length rs"
    using sum_length_filter_compl [of "\<lambda>r. r = Entry (Some ''home'')" rs] by simp
  then show ?thesis
    using assms by (auto simp: tally_array split: if_splits)
qed

lemma process_encounter_fails:
  "isl (tally (results e)) \<Longrightarrow> isl (process_encounter standings e)"
  by (auto simp: process_encounter_def tally_def Let_def split: sum.splits prod.splits)

lemma process_encounter_entry:
  assumes "process_encounter standings e = Inr standings'"
  shows "\<exists>homeWins awayWins. tally (results e) = Inr (homeWins, awayWins) \<and>
           map fst (own standings') = map fst (own standings) \<and>
           (proto standings' = None \<longleftrightarrow> proto standings = None) \<and>
           (\<forall>k. map_of (own standings') k =
                  map_option (entry_after e homeWins awayWins k) (map_of (own standings) k))"
proof -
  from assms obtain parsed s1 s2 hw aw s3 where
    parse: "JSON_parse_results (results e) = Inr parsed"
    and c1: "count_played (home_team_id e) standings = Inr s1"
    and c2: "count_played (away_team_id e) s1 = Inr s2"
    and each: "forEach_results parsed = Inr (hw, aw)"
    and u1: "update_statistics (home_team_id e) hw aw s2 = Inr s3"
    and u2: "update_statistics (away_team_id e) aw hw s3 = Inr standings'"
    by (auto simp: process_encounter_def Let_def split: sum.splits prod.splits)
  have t: "tally (results e) = Inr (hw, aw)"
    using parse each by (simp add: tally_def)
  have keys: "map fst (own standings') = map fst (own standings)"
    using count_played_Inr(1) [OF c1] count_played_Inr(1) [OF c2]
      update_statistics_Inr(1) [OF u1] update_statistics_Inr(1) [OF u2] by simp
  have pr: "proto standings' = None \<longleftrightarrow> proto standings = None"
    using count_played_Inr(3) [OF c1] count_played_Inr(3) [OF c2]
      update_statistics_Inr(3) [OF u1] update_statistics_Inr(3) [OF u2] by simp
  have entry: "map_of (own standings') k =
      map_option (entry_after e hw aw k) (map_of (own standings) k)" for k
    unfolding update_statistics_Inr(2) [OF u2] update_statistics_Inr(2) [OF u1]
      count_played_Inr(2) [OF c2] count_played_Inr(2) [OF c1]
    by (cases "map_of (own standings) k") (auto simp: entry_after_def Let_def)
  show ?thesis
    by (rule exI [of _ hw], rule exI [of _ aw]) (simp add: t keys pr entry)
qed

lemma process_encounter_runs:
  assumes "tally (results e) = Inr (homeWins, awayWins)"
    and "side_ok standings (home_team_id e)" and "side_ok standings (away_team_id e)"
  shows "\<exists>standings'. process_encounter standings e = Inr standings'"
proof -
  from assms(1) obtain parsed where parse: "JSON_parse_results (results e) = Inr parsed"
    and each: "forEach_results parsed = Inr (homeWins, awayWins)"
    by (auto simp: tally_def split: sum.splits)
  obtain s1 where c1: "count_played (home_team_id e) standings = Inr s1"
    using guarded_runs [OF assms(2)] unfolding count_played_def by blast
  have ok1: "side_ok s1 k = side_ok standings k" for k
    using count_played_Inr(1,3) [OF c1] by (rule side_ok_same)
  obtain s2 where c2: "count_played (away_team_id e) s1 = Inr s2"
    using guarded_runs [of s1 "away_team_id e"] assms(3) ok1 unfolding count_played_def by blast
  have ok2: "side_ok s2 k = side_ok standings k" for k
    using side_ok_same [OF count_played_Inr(1,3) [OF c2]] ok1 by simp
  obtain s3 where u1: "update_statistics (home_team_id e) homeWins awayWins s2 = Inr s3"
    using guarded_runs [of s2 "home_team_id e"] assms(2) ok2 unfolding update_statistics_def
    by blast
  have ok3: "side_ok s3 k = side_ok standings k" for k
    using side_ok_same [OF update_statistics_Inr(1,3) [OF u1]] ok2 by simp
  obtain s4 where u2: "update_statistics (away_team_id e) awayWins homeWins s3 = Inr s4"
    using guarded_runs [of s3 "away_team_id e"] assms(3) ok3 unfolding update_statistics_def
    by blast
  have "process_encounter standings e = Inr s4"
    using parse c1 c2 each u1 u2 by (simp add: process_encounter_def Let_def)
  then show ?thesis ..
qed

lemma entry_after_team_id: "team_id (entry_after e homeWins awayWins k v) = team_id v"
  by (simp add: entry_after_def played_def record_result_def Let_def)

lemma entry_after_balance:
  "encounters_won v + encounters_lost v = matches_played v \<Longrightarrow>
   encounters_won (entry_after e homeWins awayWins k v) +
     encounters_lost (entry_after e homeWins awayWins k v) =
   matches_played (entry_after e homeWins awayWins k v)"
  by (simp add: entry_after_def played_def record_result_def Let_def)

lemma entry_after_form:
  "tally (results e) = Inr (homeWins, awayWins) \<Longrightarrow>
   form (entry_after e homeWins awayWins k v) = form v @ spec_encounter_results k e"
  by (simp add: entry_after_def played_def record_result_def Let_def spec_encounter_results_def)

subsection \<open>All encounters\<close>

lemma process_encounters_tallies:
  "process_encounters standings es = Inr standings' \<Longrightarrow> e \<in> set es \<Longrightarrow>
   \<not> isl (tally (results e))"
proof (induction es arbitrary: standings)
  case Nil
  then show ?case by simp
next
  case (Cons x es)
  from Cons.prems(1) obtain st1 where st1: "process_encounter standings x = Inr st1"
    and rest: "process_encounters st1 es = Inr standings'"
    by (auto split: sum.splits)
  have "\<not> isl (tally (results x))"
    using st1 process_encounter_fails [of x standings] by auto
  then show ?case
    using Cons.IH [OF rest] Cons.prems(2) by auto
qed

lemma process_encounters_fails:
  "e \<in> set es \<Longrightarrow> isl (tally (results e)) \<Longrightarrow> isl (process_encounters standings es)"
  using process_encounters_tallies [of standings es _ e]
  by (cases "process_encounters standings es") auto


lemma process_encounters_keys:
  "process_encounters standings es = Inr standings' \<Longrightarrow>
   map fst (own standings') = map fst (own standings)"
proof (induction es arbitrary: standings)
  case Nil
  then show ?case by simp
next
  case (Cons x es)
  from Cons.prems obtain st1 where st1: "process_encounter standings x = Inr st1"
    and rest: "process_encounters st1 es = Inr standings'"
    by (auto split: sum.splits)
  have "map fst (own st1) = map fst (own standings)"
    using process_encounter_entry [OF st1] by blast
  then show ?case
    using Cons.IH [OF rest] by simp
qed

lemma process_encounters_entry:
  "process_encounters standings es = Inr standings' \<Longrightarrow> map_of (own standings') k = Some v' \<Longrightarrow>
   \<exists>v. map_of (own standings) k = Some v \<and>
       team_id v' = team_id v \<and>
       form v' = form v @ spec_team_results k es \<and>
       (encounters_won v + encounters_lost v = matches_played v \<longrightarrow>
        encounters_won v' + encounters_lost v' = matches_played v')"
proof (induction es arbitrary: standings)
  case Nil
  then show ?case by (simp add: spec_team_results_def)
next
  case (Cons x es)
  from Cons.prems(1) obtain st1 where st1: "process_encounter standings x = Inr st1"
    and rest: "process_encounters st1 es = Inr standings'"
    by (auto split: sum.splits)
  obtain hw aw where t: "tally (results x) = Inr (hw, aw)"
    and step: "map_of (own st1) k = map_option (entry_after x hw aw k) (map_of (own standings) k)"
    using process_encounter_entry [OF st1] by blast
  from Cons.IH [OF rest Cons.prems(2)] obtain v1 where v1: "map_of (own st1) k = Some v1"
    and id1: "team_id v' = team_id v1"
    and form1: "form v' = form v1 @ spec_team_results k es"
    and bal1: "encounters_won v1 + encounters_lost v1 = matches_played v1 \<longrightarrow>
        encounters_won v' + encounters_lost v' = matches_played v'"
    by blast
  from v1 step obtain v where v: "map_of (own standings) k = Some v"
    and v1_eq: "v1 = entry_after x hw aw k v"
    by (cases "map_of (own standings) k") auto
  have "team_id v' = team_id v"
    using id1 v1_eq by (simp add: entry_after_team_id)
  moreover have "form v' = form v @ spec_team_results k (x # es)"
    using form1 v1_eq entry_after_form [OF t, of k v] by (simp add: spec_team_results_def)
  moreover have "encounters_won v + encounters_lost v = matches_played v \<longrightarrow>
        encounters_won v' + encounters_lost v' = matches_played v'"
    using bal1 v1_eq entry_after_balance [of v x hw aw k] by blast
  ultimately show ?case
    using v by blast
qed

subsection \<open>The values of the standings object\<close>

lemma Object_values_listed: "Object_values standings = map snd (listed standings)"
  by (simp add: Object_values_def listed_def)

lemma set_listed: "set (listed standings) = set (own standings)"
  by (auto simp: listed_def)


lemma map_fst_insort_key:
  "map fst (insort_key (\<lambda>kv. h (fst kv)) x xs) = insort_key h (fst x) (map fst xs)"
  by (induction xs) auto

lemma map_fst_sort_key:
  "map fst (sort_key (\<lambda>kv. h (fst kv)) xs) = sort_key h (map fst xs)"
  by (induction xs) (simp_all add: map_fst_insort_key)

lemma keys_listed:
  "map fst (listed standings) =
     sort_key index_of (filter (\<lambda>k. array_index k \<noteq> None) (map fst (own standings))) @
     filter (\<lambda>k. array_index k = None) (map fst (own standings))"
  by (simp add: listed_def map_fst_sort_key filter_map comp_def)

lemma Object_values_members:
  assumes "distinct (map fst (own standings))"
  shows "v \<in> set (Object_values standings) \<longleftrightarrow> (\<exists>k. map_of (own standings) k = Some v)"
proof
  assume "v \<in> set (Object_values standings)"
  then obtain k where "(k, v) \<in> set (own standings)"
    by (auto simp: Object_values_listed set_listed)
  then have "map_of (own standings) k = Some v" using assms by simp
  then show "\<exists>k. map_of (own standings) k = Some v" ..
next
  assume "\<exists>k. map_of (own standings) k = Some v"
  then obtain k where "map_of (own standings) k = Some v" ..
  then have "(k, v) \<in> set (own standings)" by (rule map_of_SomeD)
  then show "v \<in> set (Object_values standings)"
    by (force simp: Object_values_listed set_listed)
qed

subsection \<open>Sorting\<close>

lemma set_insert_sorted: "set (insert_sorted cmp x ys) = insert x (set ys)"
  by (induction ys) auto

lemma length_insert_sorted: "length (insert_sorted cmp x ys) = Suc (length ys)"
  by (induction ys) auto

lemma js_sort_Cons: "js_sort cmp (x # xs) = insert_sorted cmp x (js_sort cmp xs)"
  by (simp add: js_sort_def)

lemma js_sort_Nil: "js_sort cmp [] = []"
  by (simp add: js_sort_def)

lemma set_js_sort: "set (js_sort cmp xs) = set xs"
  by (induction xs) (simp_all add: js_sort_Nil js_sort_Cons set_insert_sorted)



lemma filter_insert_sorted:
  assumes "\<And>y. P x \<Longrightarrow> P y \<Longrightarrow> cmp x y \<le> 0"
  shows "filter P (insert_sorted cmp x ys) = (if P x then x # filter P ys else filter P ys)"
  using assms by (induction ys) auto

lemma filter_js_sort:
  assumes "\<And>x y. P x \<Longrightarrow> P y \<Longrightarrow> cmp x y \<le> 0"
  shows "filter P (js_sort cmp xs) = filter P xs"
proof (induction xs)
  case Nil
  then show ?case by (simp add: js_sort_Nil)
next
  case (Cons x xs)
  have "filter P (insert_sorted cmp x (js_sort cmp xs)) =
          (if P x then x # filter P (js_sort cmp xs) else filter P (js_sort cmp xs))"
    by (rule filter_insert_sorted) (rule assms)
  then show ?case
    using Cons by (simp add: js_sort_Cons)
qed

lemma compare_standings_le: "compare_standings a b \<le> 0 \<longleftrightarrow> ranks_before a b"
  by (auto simp: compare_standings_def ranks_before_def Let_def)

lemma ranks_before_trans: "ranks_before a b \<Longrightarrow> ranks_before b c \<Longrightarrow> ranks_before a c"
  by (auto simp: ranks_before_def)

lemma ranks_before_total: "\<not> ranks_before a b \<Longrightarrow> ranks_before b a"
  by (auto simp: ranks_before_def)

lemma sorted_insert_sorted:
  "sorted_wrt ranks_before ys \<Longrightarrow> sorted_wrt ranks_before (insert_sorted compare_standings x ys)"
proof (induction ys)
  case Nil
  then show ?case by simp
next
  case (Cons y ys)
  show ?case
  proof (cases "compare_standings x y \<le> 0")
    case True
    then have xy: "ranks_before x y" by (simp add: compare_standings_le)
    have "\<forall>z \<in> set ys. ranks_before x z"
      using Cons.prems xy ranks_before_trans by auto
    then show ?thesis using True xy Cons.prems by simp
  next
    case False
    then have yx: "ranks_before y x"
      using ranks_before_total by (simp add: compare_standings_le)
    then show ?thesis
      using False Cons by (auto simp: set_insert_sorted)
  qed
qed

lemma sorted_js_sort: "sorted_wrt ranks_before (js_sort compare_standings xs)"
  by (induction xs) (simp_all add: js_sort_Nil js_sort_Cons sorted_insert_sorted)

subsection \<open>Positions and form\<close>

lemma length_assign_positions: "length (assign_positions xs) = length xs"
  by (simp add: assign_positions_def)

lemma nth_assign_positions:
  "i < length xs \<Longrightarrow>
   assign_positions xs ! i = (xs ! i)\<lparr>position := int i + 1, form := slice_last5 (form (xs ! i))\<rparr>"
  by (simp add: assign_positions_def nth_enumerate_eq)

lemma assign_positions_members:
  "s \<in> set (assign_positions xs) \<Longrightarrow>
   \<exists>i s0. s0 \<in> set xs \<and> s = s0\<lparr>position := int i + 1, form := slice_last5 (form s0)\<rparr>"
proof -
  assume "s \<in> set (assign_positions xs)"
  then obtain i where i: "i < length xs" and s: "s = assign_positions xs ! i"
    by (auto simp: in_set_conv_nth length_assign_positions)
  have "xs ! i \<in> set xs" using i by simp
  then show ?thesis
    using s nth_assign_positions [OF i] by blast
qed


lemma slice_last5_length: "length (slice_last5 xs) \<le> 5"
  by (simp add: slice_last5_def)

lemma slice_last5_rev: "slice_last5 xs = rev (take 5 (rev xs))"
  by (simp add: slice_last5_def take_rev)


subsection \<open>The whole aggregation\<close>

lemma tabulate_keys:
  "tabulate encounters registrations = Inr standings \<Longrightarrow>
   map fst (own standings) = map fst (own (init_standings registrations))"
  unfolding tabulate_def by (rule process_encounters_keys)

lemma tabulate_distinct:
  "tabulate encounters registrations = Inr standings \<Longrightarrow> distinct (map fst (own standings))"
  by (simp add: tabulate_keys init_standings_distinct)

lemma tabulate_entry:
  assumes "tabulate encounters registrations = Inr standings" "map_of (own standings) k = Some v"
  shows "team_id v = k \<and>
         form v = spec_team_results k (case encounters of None \<Rightarrow> [] | Some es \<Rightarrow> es) \<and>
         encounters_won v + encounters_lost v = matches_played v"
proof -
  obtain v0 where v0: "map_of (own (init_standings registrations)) k = Some v0"
    and id: "team_id v = team_id v0"
    and f: "form v = form v0 @ spec_team_results k (case encounters of None \<Rightarrow> [] | Some es \<Rightarrow> es)"
    and bal: "encounters_won v0 + encounters_lost v0 = matches_played v0 \<longrightarrow>
        encounters_won v + encounters_lost v = matches_played v"
    using process_encounters_entry [OF assms(1) [unfolded tabulate_def] assms(2)] by blast
  show ?thesis
    using init_standings_entry [OF v0] id f bal by simp
qed

lemma tabulate_team_ids:
  assumes "tabulate encounters registrations = Inr standings"
  shows "map team_id (Object_values standings) = map fst (listed standings)"
proof -
  have "team_id v = k" if "(k, v) \<in> set (listed standings)" for k v
  proof -
    have "(k, v) \<in> set (own standings)" using that by (simp add: set_listed)
    then have "map_of (own standings) k = Some v"
      using tabulate_distinct [OF assms] by simp
    then show ?thesis using tabulate_entry [OF assms] by blast
  qed
  then show ?thesis
    by (auto simp: Object_values_listed)
qed

lemma getGroupStandings_cases:
  "getGroupStandings encounters encError registrations regError = [] \<or>
   (\<exists>standings. encError = None \<and> regError = None \<and>
      tabulate encounters registrations = Inr standings \<and>
      getGroupStandings encounters encError registrations regError =
        assign_positions (js_sort compare_standings (Object_values standings)))"
  by (cases "tabulate encounters registrations") (auto simp: getGroupStandings_def)

lemma getGroupStandings_member:
  assumes "s \<in> set (getGroupStandings encounters encError registrations regError)"
  shows "\<exists>standings k s0 i. tabulate encounters registrations = Inr standings \<and>
           map_of (own standings) k = Some s0 \<and>
           s = s0\<lparr>position := int i + 1, form := slice_last5 (form s0)\<rparr>"
proof -
  from assms getGroupStandings_cases [of encounters encError registrations regError]
  obtain standings where t: "tabulate encounters registrations = Inr standings"
    and out: "getGroupStandings encounters encError registrations regError =
        assign_positions (js_sort compare_standings (Object_values standings))"
    by auto
  from assms obtain i s0 where s0: "s0 \<in> set (Object_values standings)"
    and s: "s = s0\<lparr>position := int i + 1, form := slice_last5 (form s0)\<rparr>"
    unfolding out using assign_positions_members set_js_sort by metis
  from s0 obtain k where "map_of (own standings) k = Some s0"
    using Object_values_members [OF tabulate_distinct [OF t]] by blast
  then show ?thesis using t s by blast
qed

lemma filter_assign_positions:
  assumes "\<And>i s. P (s\<lparr>position := i, form := slice_last5 (form s)\<rparr>) = P s"
    and "\<And>i s. f (s\<lparr>position := i, form := slice_last5 (form s)\<rparr>) = f s"
  shows "map f (filter P (assign_positions xs)) = map f (filter P xs)"
proof -
  have "map f (filter P (map (\<lambda>(index, standing).
            standing\<lparr>position := int index + 1, form := slice_last5 (form standing)\<rparr>)
         (enumerate n xs))) = map f (filter P xs)" for n
    by (induction xs arbitrary: n) (simp_all add: assms)
  then show ?thesis by (simp add: assign_positions_def)
qed

lemma sorted_assign_positions:
  assumes "sorted_wrt ranks_before xs"
  shows "sorted_wrt ranks_before (assign_positions xs)"
proof -
  have "ranks_before (assign_positions xs ! i) (assign_positions xs ! j)"
    if "i < j" "j < length xs" for i j
  proof -
    have "ranks_before (xs ! i) (xs ! j)"
      using assms that by (simp add: sorted_wrt_iff_nth_less)
    then show ?thesis
      using that by (simp add: nth_assign_positions ranks_before_def)
  qed
  then show ?thesis
    by (simp add: sorted_wrt_iff_nth_less length_assign_positions)
qed



subsection \<open>The claims about the standings\<close>

lemma record_result_won:
  "lost < won \<Longrightarrow> record_result won lost (played s) =
      s\<lparr>matches_played := matches_played s + 1,
        individual_matches_won := individual_matches_won s + won,
        individual_matches_lost := individual_matches_lost s + lost,
        encounters_won := encounters_won s + 1,
        points := points s + 3,
        form := form s @ [''W'']\<rparr>"
  by (simp add: record_result_def played_def Let_def)

lemma record_result_lost:
  "\<not> lost < won \<Longrightarrow> record_result won lost (played s) =
      s\<lparr>matches_played := matches_played s + 1,
        individual_matches_won := individual_matches_won s + won,
        individual_matches_lost := individual_matches_lost s + lost,
        encounters_lost := encounters_lost s + 1,
        form := form s @ [''L'']\<rparr>"
  by (simp add: record_result_def played_def Let_def)

lemma entry_after_sides:
  assumes "home_team_id e \<noteq> away_team_id e"
  shows "entry_after e homeWins awayWins (home_team_id e) =
           (\<lambda>s. record_result homeWins awayWins (played s))"
    and "entry_after e homeWins awayWins (away_team_id e) =
           (\<lambda>s. record_result awayWins homeWins (played s))"
  using assms by (auto simp: entry_after_def Let_def fun_eq_iff)

lemma two_teams_sides_ok:
  "side_ok (init_standings (Some two_teams)) ''H''"
  "side_ok (init_standings (Some two_teams)) ''A''"
  by (rule init_standings_side_ok, simp add: two_teams_def)+

text \<open>
  C3. For an encounter between two different teams whose results tally to
  \<open>(homeWins, awayWins)\<close>: when both sides are roster teams or plain identifiers the loop
  body runs without an exception; and whenever it does, and one side has strictly more
  individual wins, the entry of that side (if the roster has it) gets one more match
  played, its individual wins and losses added, one more encounter won, three more points
  and a \<open>W\<close> at the end of its form, while the entry of the other side gets one more
  match played, its individual wins and losses added, one more encounter lost, an \<open>L\<close>
  at the end of its form and no point. The example of the specification: the home side
  wins one encounter 3 to 2 and is ranked first with 3 points, 1 encounter won and 3 to 2
  individual matches; the away side is second with 0 points, 1 encounter lost and 2 to 3.
\<close>

theorem encounter_winner_takes_three:
  assumes "tally (results encounter) = Inr (homeWins, awayWins)"
    and "home_team_id encounter \<noteq> away_team_id encounter"
  shows
    "(side_ok standings (home_team_id encounter) \<and> side_ok standings (away_team_id encounter) \<longrightarrow>
        (\<exists>standings'. process_encounter standings encounter = Inr standings')) \<and>
     (\<forall>standings'. process_encounter standings encounter = Inr standings' \<longrightarrow>
       (awayWins < homeWins \<longrightarrow>
          map_of (own standings') (home_team_id encounter) =
            map_option (\<lambda>s. s\<lparr>matches_played := matches_played s + 1,
                               individual_matches_won := individual_matches_won s + homeWins,
                               individual_matches_lost := individual_matches_lost s + awayWins,
                               encounters_won := encounters_won s + 1,
                               points := points s + 3,
                               form := form s @ [''W'']\<rparr>)
              (map_of (own standings) (home_team_id encounter)) \<and>
          map_of (own standings') (away_team_id encounter) =
            map_option (\<lambda>s. s\<lparr>matches_played := matches_played s + 1,
                               individual_matches_won := individual_matches_won s + awayWins,
                               individual_matches_lost := individual_matches_lost s + homeWins,
                               encounters_lost := encounters_lost s + 1,
                               form := form s @ [''L'']\<rparr>)
              (map_of (own standings) (away_team_id encounter))) \<and>
       (homeWins < awayWins \<longrightarrow>
          map_of (own standings') (away_team_id encounter) =
            map_option (\<lambda>s. s\<lparr>matches_played := matches_played s + 1,
                               individual_matches_won := individual_matches_won s + awayWins,
                               individual_matches_lost := individual_matches_lost s + homeWins,
                               encounters_won := encounters_won s + 1,
                               points := points s + 3,
                               form := form s @ [''W'']\<rparr>)
              (map_of (own standings) (away_team_id encounter)) \<and>
          map_of (own standings') (home_team_id encounter) =
            map_option (\<lambda>s. s\<lparr>matches_played := matches_played s + 1,
                               individual_matches_won := individual_matches_won s + homeWins,
                               individual_matches_lost := individual_matches_lost s + awayWins,
                               encounters_lost := encounters_lost s + 1,
                               form := form s @ [''L'']\<rparr>)
              (map_of (own standings) (home_team_id encounter)))) \<and>
     getGroupStandings (Some [hawks_host home_3_2]) None (Some two_teams) None =
       [\<lparr>team_id = ''H'', team_name = ''Hawks'', is_cpu = False, position = 1,
         matches_played = 1, encounters_won = 1, encounters_lost = 0,
         individual_matches_won = 3, individual_matches_lost = 2, points = 3,
         form = [''W'']\<rparr>,
        \<lparr>team_id = ''A'', team_name = ''Ants'', is_cpu = False, position = 2,
         matches_played = 1, encounters_won = 0, encounters_lost = 1,
         individual_matches_won = 2, individual_matches_lost = 3, points = 0,
         form = [''L'']\<rparr>]"
proof -
  have runs: "side_ok standings (home_team_id encounter) \<and>
      side_ok standings (away_team_id encounter) \<longrightarrow>
        (\<exists>standings'. process_encounter standings encounter = Inr standings')"
    using process_encounter_runs [OF assms(1)] by blast
  have updates:
    "(awayWins < homeWins \<longrightarrow>
          map_of (own standings') (home_team_id encounter) =
            map_option (\<lambda>s. s\<lparr>matches_played := matches_played s + 1,
                               individual_matches_won := individual_matches_won s + homeWins,
                               individual_matches_lost := individual_matches_lost s + awayWins,
                               encounters_won := encounters_won s + 1,
                               points := points s + 3,
                               form := form s @ [''W'']\<rparr>)
              (map_of (own standings) (home_team_id encounter)) \<and>
          map_of (own standings') (away_team_id encounter) =
            map_option (\<lambda>s. s\<lparr>matches_played := matches_played s + 1,
                               individual_matches_won := individual_matches_won s + awayWins,
                               individual_matches_lost := individual_matches_lost s + homeWins,
                               encounters_lost := encounters_lost s + 1,
                               form := form s @ [''L'']\<rparr>)
              (map_of (own standings) (away_team_id encounter))) \<and>
       (homeWins < awayWins \<longrightarrow>
          map_of (own standings') (away_team_id encounter) =
            map_option (\<lambda>s. s\<lparr>matches_played := matches_played s + 1,
                               individual_matches_won := individual_matches_won s + awayWins,
                               individual_matches_lost := individual_matches_lost s + homeWins,
                               encounters_won := encounters_won s + 1,
                               points := points s + 3,
                               form := form s @ [''W'']\<rparr>)
              (map_of (own standings) (away_team_id encounter)) \<and>
          map_of (own standings') (home_team_id encounter) =
            map_option (\<lambda>s. s\<lparr>matches_played := matches_played s + 1,
                               individual_matches_won := individual_matches_won s + homeWins,
                               individual_matches_lost := individual_matches_lost s + awayWins,
                               encounters_lost := encounters_lost s + 1,
                               form := form s @ [''L'']\<rparr>)
              (map_of (own standings) (home_team_id encounter)))"
    if run: "process_encounter standings encounter = Inr standings'" for standings'
  proof -
    obtain hw aw where t: "tally (results encounter) = Inr (hw, aw)"
      and entry: "\<And>k. map_of (own standings') k =
          map_option (entry_after encounter hw aw k) (map_of (own standings) k)"
      using process_encounter_entry [OF run] by blast
    have hw: "hw = homeWins" and aw: "aw = awayWins"
      using t assms(1) by simp_all
    show ?thesis
      by (cases "map_of (own standings) (home_team_id encounter)";
          cases "map_of (own standings) (away_team_id encounter)")
         (simp_all add: entry hw aw entry_after_sides [OF assms(2)]
            record_result_won record_result_lost)
  qed
  have example: "getGroupStandings (Some [hawks_host home_3_2]) None (Some two_teams) None =
       [\<lparr>team_id = ''H'', team_name = ''Hawks'', is_cpu = False, position = 1,
         matches_played = 1, encounters_won = 1, encounters_lost = 0,
         individual_matches_won = 3, individual_matches_lost = 2, points = 3,
         form = [''W'']\<rparr>,
        \<lparr>team_id = ''A'', team_name = ''Ants'', is_cpu = False, position = 2,
         matches_played = 1, encounters_won = 0, encounters_lost = 1,
         individual_matches_won = 2, individual_matches_lost = 3, points = 0,
         form = [''L'']\<rparr>]"
    by code_simp
  show ?thesis
    using runs updates example by blast
qed

theorem encounter_winner_takes_three_witness:
  "tally (results (hawks_host home_3_2)) = Inr (3, 2) \<and>
   home_team_id (hawks_host home_3_2) \<noteq> away_team_id (hawks_host home_3_2) \<and>
   side_ok (init_standings (Some two_teams)) (home_team_id (hawks_host home_3_2)) \<and>
   side_ok (init_standings (Some two_teams)) (away_team_id (hawks_host home_3_2)) \<and>
   (\<exists>standings'.
      process_encounter (init_standings (Some two_teams)) (hawks_host home_3_2) = Inr standings' \<and>
      map_option points (map_of (own standings') ''H'') = Some 3 \<and>
      map_option form (map_of (own standings') ''H'') = Some [''W''] \<and>
      map_option points (map_of (own standings') ''A'') = Some 0 \<and>
      map_option form (map_of (own standings') ''A'') = Some [''L''])"
proof -
  let ?st = "init_standings (Some two_teams)"
  have t: "tally (results (hawks_host home_3_2)) = Inr (3, 2)"
    by code_simp
  have d: "home_team_id (hawks_host home_3_2) \<noteq> away_team_id (hawks_host home_3_2)"
    by (simp add: hawks_host_def)
  have sides: "home_team_id (hawks_host home_3_2) = ''H''" "away_team_id (hawks_host home_3_2) = ''A''"
    by (simp_all add: hawks_host_def)
  have ok: "side_ok ?st (home_team_id (hawks_host home_3_2))"
    "side_ok ?st (away_team_id (hawks_host home_3_2))"
    unfolding sides by (rule two_teams_sides_ok)+
  have h0: "map_option points (map_of (own ?st) ''H'') = Some 0"
   and hf: "map_option form (map_of (own ?st) ''H'') = Some []"
   and a0: "map_option points (map_of (own ?st) ''A'') = Some 0"
   and af: "map_option form (map_of (own ?st) ''A'') = Some []"
    by code_simp+
  note inst = encounter_winner_takes_three [OF t d, of ?st]
  obtain standings' where run: "process_encounter ?st (hawks_host home_3_2) = Inr standings'"
    using inst ok by blast
  have h: "map_of (own standings') ''H'' =
          map_option (\<lambda>s. s\<lparr>matches_played := matches_played s + 1,
                             individual_matches_won := individual_matches_won s + 3,
                             individual_matches_lost := individual_matches_lost s + 2,
                             encounters_won := encounters_won s + 1,
                             points := points s + 3,
                             form := form s @ [''W'']\<rparr>)
            (map_of (own ?st) ''H'')"
    and a: "map_of (own standings') ''A'' =
          map_option (\<lambda>s. s\<lparr>matches_played := matches_played s + 1,
                             individual_matches_won := individual_matches_won s + 2,
                             individual_matches_lost := individual_matches_lost s + 3,
                             encounters_lost := encounters_lost s + 1,
                             form := form s @ [''L'']\<rparr>)
            (map_of (own ?st) ''A'')"
    using inst run unfolding sides by auto
  have "map_option points (map_of (own standings') ''H'') = Some 3"
    and "map_option form (map_of (own standings') ''H'') = Some [''W'']"
    and "map_option points (map_of (own standings') ''A'') = Some 0"
    and "map_option form (map_of (own standings') ''A'') = Some [''L'']"
    using h0 hf a0 af unfolding h a by (auto simp: option.map_comp comp_def)
  then show ?thesis
    using t d ok run by blast
qed

text \<open>
  C10. When the results of an encounter between two different teams tally to the same
  number of wins for both sides, the loop body (which runs without an exception when both
  sides are roster teams or plain identifiers) gives both entries an encounter lost and an
  \<open>L\<close> at the end of their form, and the points of neither change. A results array with
  such a tally has an even number of entries, so five results never tie.
\<close>

theorem tied_encounter_both_lose:
  assumes "tally (results encounter) = Inr (wins, wins)"
    and "home_team_id encounter \<noteq> away_team_id encounter"
  shows
    "(side_ok standings (home_team_id encounter) \<and> side_ok standings (away_team_id encounter) \<longrightarrow>
        (\<exists>standings'. process_encounter standings encounter = Inr standings')) \<and>
     (\<forall>standings'. process_encounter standings encounter = Inr standings' \<longrightarrow>
       map_of (own standings') (home_team_id encounter) =
         map_option (\<lambda>s. s\<lparr>matches_played := matches_played s + 1,
                            individual_matches_won := individual_matches_won s + wins,
                            individual_matches_lost := individual_matches_lost s + wins,
                            encounters_lost := encounters_lost s + 1,
                            form := form s @ [''L'']\<rparr>)
           (map_of (own standings) (home_team_id encounter)) \<and>
       map_of (own standings') (away_team_id encounter) =
         map_option (\<lambda>s. s\<lparr>matches_played := matches_played s + 1,
                            individual_matches_won := individual_matches_won s + wins,
                            individual_matches_lost := individual_matches_lost s + wins,
                            encounters_lost := encounters_lost s + 1,
                            form := form s @ [''L'']\<rparr>)
           (map_of (own standings) (away_team_id encounter)) \<and>
       map_option points (map_of (own standings') (home_team_id encounter)) =
         map_option points (map_of (own standings) (home_team_id encounter)) \<and>
       map_option points (map_of (own standings') (away_team_id encounter)) =
         map_option points (map_of (own standings) (away_team_id encounter))) \<and>
     (\<forall>rs. results encounter = Json (JArray rs) \<longrightarrow> int (length rs) = 2 * wins)"
proof -
  have even_length: "\<forall>rs. results encounter = Json (JArray rs) \<longrightarrow> int (length rs) = 2 * wins"
    using assms(1) tally_counts_all [of _ wins wins] by auto
  have runs: "side_ok standings (home_team_id encounter) \<and>
      side_ok standings (away_team_id encounter) \<longrightarrow>
        (\<exists>standings'. process_encounter standings encounter = Inr standings')"
    using process_encounter_runs [OF assms(1)] by blast
  have updates:
    "map_of (own standings') (home_team_id encounter) =
         map_option (\<lambda>s. s\<lparr>matches_played := matches_played s + 1,
                            individual_matches_won := individual_matches_won s + wins,
                            individual_matches_lost := individual_matches_lost s + wins,
                            encounters_lost := encounters_lost s + 1,
                            form := form s @ [''L'']\<rparr>)
           (map_of (own standings) (home_team_id encounter)) \<and>
       map_of (own standings') (away_team_id encounter) =
         map_option (\<lambda>s. s\<lparr>matches_played := matches_played s + 1,
                            individual_matches_won := individual_matches_won s + wins,
                            individual_matches_lost := individual_matches_lost s + wins,
                            encounters_lost := encounters_lost s + 1,
                            form := form s @ [''L'']\<rparr>)
           (map_of (own standings) (away_team_id encounter)) \<and>
       map_option points (map_of (own standings') (home_team_id encounter)) =
         map_option points (map_of (own standings) (home_team_id encounter)) \<and>
       map_option points (map_of (own standings') (away_team_id encounter)) =
         map_option points (map_of (own standings) (away_team_id encounter))"
    if run: "process_encounter standings encounter = Inr standings'" for standings'
  proof -
    obtain hw aw where t: "tally (results encounter) = Inr (hw, aw)"
      and entry: "\<And>k. map_of (own standings') k =
          map_option (entry_after encounter hw aw k) (map_of (own standings) k)"
      using process_encounter_entry [OF run] by blast
    have hw: "hw = wins" and aw: "aw = wins"
      using t assms(1) by simp_all
    show ?thesis
      by (cases "map_of (own standings) (home_team_id encounter)";
          cases "map_of (own standings) (away_team_id encounter)")
         (simp_all add: entry hw aw entry_after_sides [OF assms(2)] record_result_lost)
  qed
  show ?thesis
    using runs updates even_length by blast
qed

theorem tied_encounter_both_lose_witness:
  "tally (results (hawks_host Empty)) = Inr (0, 0) \<and>
   home_team_id (hawks_host Empty) \<noteq> away_team_id (hawks_host Empty) \<and>
   side_ok (init_standings (Some two_teams)) (home_team_id (hawks_host Empty)) \<and>
   side_ok (init_standings (Some two_teams)) (away_team_id (hawks_host Empty)) \<and>
   (\<exists>standings'.
      process_encounter (init_standings (Some two_teams)) (hawks_host Empty) = Inr standings' \<and>
      map_option points (map_of (own standings') ''H'') = Some 0 \<and>
      map_option points (map_of (own standings') ''A'') = Some 0)"
proof -
  let ?st = "init_standings (Some two_teams)"
  have t: "tally (results (hawks_host Empty)) = Inr (0, 0)"
    by code_simp
  have d: "home_team_id (hawks_host Empty) \<noteq> away_team_id (hawks_host Empty)"
    by (simp add: hawks_host_def)
  have sides: "home_team_id (hawks_host Empty) = ''H''" "away_team_id (hawks_host Empty) = ''A''"
    by (simp_all add: hawks_host_def)
  have ok: "side_ok ?st (home_team_id (hawks_host Empty))"
    "side_ok ?st (away_team_id (hawks_host Empty))"
    unfolding sides by (rule two_teams_sides_ok)+
  have h0: "map_option points (map_of (own ?st) ''H'') = Some 0"
   and a0: "map_option points (map_of (own ?st) ''A'') = Some 0"
    by code_simp+
  note inst = tied_encounter_both_lose [OF t d, of ?st]
  obtain standings' where run: "process_encounter ?st (hawks_host Empty) = Inr standings'"
    using inst ok by blast
  have h: "map_option points (map_of (own standings') ''H'') =
       map_option points (map_of (own ?st) ''H'')"
    and a: "map_option points (map_of (own standings') ''A'') =
       map_option points (map_of (own ?st) ''A'')"
    using inst run unfolding sides by auto
  show ?thesis
    using t d ok run h a h0 a0 by auto
qed

lemma entry_after_counts:
  "matches_played (entry_after e homeWins awayWins k v) =
     matches_played v + ((if k = home_team_id e then 1 else 0) + (if k = away_team_id e then 1 else 0))"
  "encounters_won (entry_after e homeWins awayWins k v) +
     encounters_lost (entry_after e homeWins awayWins k v) =
     encounters_won v + encounters_lost v +
       ((if k = home_team_id e then 1 else 0) + (if k = away_team_id e then 1 else 0))"
  "encounters_won v \<le> encounters_won (entry_after e homeWins awayWins k v)"
  "encounters_lost v \<le> encounters_lost (entry_after e homeWins awayWins k v)"
  by (simp_all add: entry_after_def played_def record_result_def Let_def)

text \<open>
  C8, as the method behaves. In every entry that the aggregator returns, encounters won
  plus encounters lost is the number of matches played. The loop body adds to an entry of
  the roster, once for each side of the encounter (home, away) that names its team, one
  match played and one encounter won or lost: one of each for a team on one side, two of
  each for a team entered on both sides, nothing for the other teams.
\<close>

theorem encounters_add_up:
  "(\<forall>s \<in> set (getGroupStandings encounters encError registrations regError).
      encounters_won s + encounters_lost s = matches_played s) \<and>
   (\<forall>standings' k v.
      process_encounter standings encounter = Inr standings' \<and>
      map_of (own standings) k = Some v \<longrightarrow>
      (\<exists>v'. map_of (own standings') k = Some v' \<and>
            matches_played v' = matches_played v +
              ((if k = home_team_id encounter then 1 else 0) +
               (if k = away_team_id encounter then 1 else 0)) \<and>
            encounters_won v' + encounters_lost v' = encounters_won v + encounters_lost v +
              ((if k = home_team_id encounter then 1 else 0) +
               (if k = away_team_id encounter then 1 else 0)) \<and>
            encounters_won v \<le> encounters_won v' \<and>
            encounters_lost v \<le> encounters_lost v'))"
proof -
  have all: "\<forall>s \<in> set (getGroupStandings encounters encError registrations regError).
      encounters_won s + encounters_lost s = matches_played s"
  proof
    fix s assume "s \<in> set (getGroupStandings encounters encError registrations regError)"
    then obtain standings k s0 i where t: "tabulate encounters registrations = Inr standings"
      and s0: "map_of (own standings) k = Some s0"
      and s: "s = s0\<lparr>position := int i + 1, form := slice_last5 (form s0)\<rparr>"
      using getGroupStandings_member by blast
    have "encounters_won s0 + encounters_lost s0 = matches_played s0"
      using tabulate_entry [OF t s0] by simp
    then show "encounters_won s + encounters_lost s = matches_played s"
      by (simp add: s)
  qed
  have step: "\<exists>v'. map_of (own standings') k = Some v' \<and>
            matches_played v' = matches_played v +
              ((if k = home_team_id encounter then 1 else 0) +
               (if k = away_team_id encounter then 1 else 0)) \<and>
            encounters_won v' + encounters_lost v' = encounters_won v + encounters_lost v +
              ((if k = home_team_id encounter then 1 else 0) +
               (if k = away_team_id encounter then 1 else 0)) \<and>
            encounters_won v \<le> encounters_won v' \<and>
            encounters_lost v \<le> encounters_lost v'"
    if run: "process_encounter standings encounter = Inr standings'"
      and v: "map_of (own standings) k = Some v"
    for standings' k v
  proof -
    obtain hw aw where entry: "\<And>k. map_of (own standings') k =
          map_option (entry_after encounter hw aw k) (map_of (own standings) k)"
      using process_encounter_entry [OF run] by blast
    have "map_of (own standings') k = Some (entry_after encounter hw aw k v)"
      by (simp add: entry v)
    then show ?thesis
      by (simp add: entry_after_counts)
  qed
  show ?thesis
    using all step by blast
qed

theorem encounters_add_up_witness:
  "hd (getGroupStandings (Some six_encounters) None (Some two_teams) None)
     \<in> set (getGroupStandings (Some six_encounters) None (Some two_teams) None) \<and>
   matches_played (hd (getGroupStandings (Some six_encounters) None (Some two_teams) None)) = 6 \<and>
   encounters_won (hd (getGroupStandings (Some six_encounters) None (Some two_teams) None)) +
     encounters_lost (hd (getGroupStandings (Some six_encounters) None (Some two_teams) None)) = 6 \<and>
   (\<exists>standings' v v'.
      process_encounter (init_standings (Some two_teams)) (hawks_host home_3_2) = Inr standings' \<and>
      map_of (own (init_standings (Some two_teams))) ''A'' = Some v \<and>
      map_of (own standings') ''A'' = Some v' \<and>
      matches_played v' = matches_played v + 1)"
proof -
  let ?out = "getGroupStandings (Some six_encounters) None (Some two_teams) None"
  let ?st = "init_standings (Some two_teams)"
  note inst = encounters_add_up [of "Some six_encounters" None "Some two_teams" None
      ?st "hawks_host home_3_2"]
  have ne: "?out \<noteq> []"
    by code_simp
  then have m: "hd ?out \<in> set ?out"
    by simp
  have p: "matches_played (hd ?out) = 6"
    by code_simp
  have sum: "encounters_won (hd ?out) + encounters_lost (hd ?out) = 6"
    using inst m p by simp
  have t: "tally (results (hawks_host home_3_2)) = Inr (3, 2)"
    by code_simp
  have sides: "home_team_id (hawks_host home_3_2) = ''H''" "away_team_id (hawks_host home_3_2) = ''A''"
    by (simp_all add: hawks_host_def)
  obtain standings' where run: "process_encounter ?st (hawks_host home_3_2) = Inr standings'"
    using process_encounter_runs [OF t, of ?st] two_teams_sides_ok unfolding sides by blast
  have "map_of (own ?st) ''A'' \<noteq> None"
    by code_simp
  then obtain v where v: "map_of (own ?st) ''A'' = Some v"
    by blast
  obtain v' where "map_of (own standings') ''A'' = Some v'" "matches_played v' = matches_played v + 1"
    using inst [THEN conjunct2, rule_format, OF conjI [OF run v]] unfolding sides by auto
  then show ?thesis
    using m p sum run v by blast
qed

text \<open>
  The claim as the specification states it (each processed encounter involving a roster
  team adds one to that team's matches played and one to exactly one of its encounters won
  and lost) fails for an encounter that names the same roster team on both sides: with
  the results 3 to 2 the team gets two matches played, one encounter won and one lost.
\<close>

theorem encounters_add_up_counterexample:
  "getGroupStandings
     (Some [\<lparr>home_team_id = ''H'', away_team_id = ''H'', results = home_3_2\<rparr>])
     None (Some two_teams) None =
   [\<lparr>team_id = ''H'', team_name = ''Hawks'', is_cpu = False, position = 1,
     matches_played = 2, encounters_won = 1, encounters_lost = 1,
     individual_matches_won = 5, individual_matches_lost = 5, points = 3,
     form = [''W'', ''L'']\<rparr>,
    \<lparr>team_id = ''A'', team_name = ''Ants'', is_cpu = False, position = 2,
     matches_played = 0, encounters_won = 0, encounters_lost = 0,
     individual_matches_won = 0, individual_matches_lost = 0, points = 0,
     form = []\<rparr>]"
  by code_simp

text \<open>
  C6. In every entry that the aggregator returns, the form has at most five elements and
  is the last five (or all, when there are fewer) of that team's results, in the order in
  which the encounters were supplied.
\<close>

theorem form_is_last_five_results:
  "\<forall>s \<in> set (getGroupStandings encounters encError registrations regError).
     length (form s) \<le> 5 \<and>
     form s = rev (take 5 (rev (spec_team_results (team_id s)
                                  (case encounters of None \<Rightarrow> [] | Some es \<Rightarrow> es))))"
proof
  fix s assume "s \<in> set (getGroupStandings encounters encError registrations regError)"
  then obtain standings k s0 i where t: "tabulate encounters registrations = Inr standings"
    and s0: "map_of (own standings) k = Some s0"
    and s: "s = s0\<lparr>position := int i + 1, form := slice_last5 (form s0)\<rparr>"
    using getGroupStandings_member by blast
  have "team_id s0 = k"
    and "form s0 = spec_team_results k (case encounters of None \<Rightarrow> [] | Some es \<Rightarrow> es)"
    using tabulate_entry [OF t s0] by simp_all
  then show "length (form s) \<le> 5 \<and>
     form s = rev (take 5 (rev (spec_team_results (team_id s)
                                  (case encounters of None \<Rightarrow> [] | Some es \<Rightarrow> es))))"
    by (simp add: s slice_last5_length slice_last5_rev)
qed

theorem form_is_last_five_results_witness:
  "hd (getGroupStandings (Some six_encounters) None (Some two_teams) None)
     \<in> set (getGroupStandings (Some six_encounters) None (Some two_teams) None) \<and>
   team_id (hd (getGroupStandings (Some six_encounters) None (Some two_teams) None)) = ''H'' \<and>
   spec_team_results ''H'' six_encounters = [''W'', ''L'', ''W'', ''W'', ''L'', ''W''] \<and>
   form (hd (getGroupStandings (Some six_encounters) None (Some two_teams) None)) =
     [''L'', ''W'', ''W'', ''L'', ''W'']"
proof -
  have ne: "getGroupStandings (Some six_encounters) None (Some two_teams) None \<noteq> []"
    by code_simp
  then have m: "hd (getGroupStandings (Some six_encounters) None (Some two_teams) None)
     \<in> set (getGroupStandings (Some six_encounters) None (Some two_teams) None)"
    by simp
  have i: "team_id (hd (getGroupStandings (Some six_encounters) None (Some two_teams) None)) = ''H''"
    by code_simp
  have r: "spec_team_results ''H'' six_encounters = [''W'', ''L'', ''W'', ''W'', ''L'', ''W'']"
    by code_simp
  show ?thesis
    using m i r form_is_last_five_results [of "Some six_encounters" None "Some two_teams" None]
    by auto
qed

lemma filter_all: "\<forall>x \<in> set xs. P x \<Longrightarrow> filter P xs = xs"
  by (induction xs) simp_all

lemma filter_none: "\<forall>x \<in> set xs. \<not> P x \<Longrightarrow> filter P xs = []"
  by (induction xs) simp_all

text \<open>
  C4. The returned list is ordered by points, descending, then by the difference of
  individual matches won and lost, descending; the entry at index \<open>i\<close> has position
  \<open>i + 1\<close>; and entries with the same points and the same difference stand in the
  order in which \<open>Object.values\<close> lists them. For a roster of distinct team identifiers
  that order is: the identifiers that are array indices, ascending, then the others in
  the order of the roster, \<open>__proto__\<close> left out; so it is the order of the roster when no
  identifier is an array index or \<open>__proto__\<close>.
\<close>

theorem standings_ranking:
  fixes encounters :: "encounter list option"
    and encError regError :: "string option"
    and registrations :: "registration list option"
  defines "out \<equiv> getGroupStandings encounters encError registrations regError"
  shows "sorted_wrt ranks_before out \<and>
         (\<forall>i < length out. position (out ! i) = int i + 1) \<and>
         (\<forall>standings. encError = None \<and> regError = None \<and>
             tabulate encounters registrations = Inr standings \<longrightarrow>
             (\<forall>p d. map team_id
                       (filter (\<lambda>s. points s = p \<and>
                                     individual_matches_won s - individual_matches_lost s = d) out) =
                    map team_id
                       (filter (\<lambda>s. points s = p \<and>
                                     individual_matches_won s - individual_matches_lost s = d)
                          (Object_values standings))) \<and>
             (\<forall>regs. registrations = Some regs \<and> distinct (map user_id regs) \<longrightarrow>
                map team_id (Object_values standings) =
                  sort_key index_of
                    (filter (\<lambda>k. array_index k \<noteq> None \<and> k \<noteq> ''__proto__'') (map user_id regs)) @
                  filter (\<lambda>k. array_index k = None \<and> k \<noteq> ''__proto__'') (map user_id regs)) \<and>
             (\<forall>regs. registrations = Some regs \<and> distinct (map user_id regs) \<and>
                     (\<forall>r \<in> set regs. array_index (user_id r) = None \<and> user_id r \<noteq> ''__proto__'') \<longrightarrow>
                map team_id (Object_values standings) = map user_id regs))"
proof -
  have sorted: "sorted_wrt ranks_before out"
    using getGroupStandings_cases [of encounters encError registrations regError]
    unfolding out_def by (auto simp: sorted_assign_positions sorted_js_sort)
  have pos: "\<forall>i < length out. position (out ! i) = int i + 1"
    using getGroupStandings_cases [of encounters encError registrations regError]
    unfolding out_def by (auto simp: length_assign_positions nth_assign_positions)
  have stable: "map team_id
                       (filter (\<lambda>s. points s = p \<and>
                                     individual_matches_won s - individual_matches_lost s = d) out) =
                    map team_id
                       (filter (\<lambda>s. points s = p \<and>
                                     individual_matches_won s - individual_matches_lost s = d)
                          (Object_values standings))"
    if "encError = None" "regError = None" "tabulate encounters registrations = Inr standings"
    for standings p d
  proof -
    let ?P = "\<lambda>s :: GroupStanding. points s = p \<and>
                individual_matches_won s - individual_matches_lost s = d"
    have out: "out = assign_positions (js_sort compare_standings (Object_values standings))"
      using that by (simp add: out_def getGroupStandings_def)
    have "map team_id (filter ?P out) =
          map team_id (filter ?P (js_sort compare_standings (Object_values standings)))"
      unfolding out by (rule filter_assign_positions) simp_all
    also have "filter ?P (js_sort compare_standings (Object_values standings)) =
          filter ?P (Object_values standings)"
      by (rule filter_js_sort) (simp add: compare_standings_def)
    finally show ?thesis .
  qed
  have roster: "map team_id (Object_values standings) =
                  sort_key index_of
                    (filter (\<lambda>k. array_index k \<noteq> None \<and> k \<noteq> ''__proto__'') (map user_id regs)) @
                  filter (\<lambda>k. array_index k = None \<and> k \<noteq> ''__proto__'') (map user_id regs)"
    if "tabulate encounters registrations = Inr standings" "registrations = Some regs"
       "distinct (map user_id regs)"
    for standings regs
    using that
    by (simp add: tabulate_team_ids keys_listed tabulate_keys init_standings_roster_order
          conj_commute)
  have plain: "map team_id (Object_values standings) = map user_id regs"
    if t: "tabulate encounters registrations = Inr standings" and r: "registrations = Some regs"
      and d: "distinct (map user_id regs)"
      and p: "\<forall>r \<in> set regs. array_index (user_id r) = None \<and> user_id r \<noteq> ''__proto__''"
    for standings regs
  proof -
    have "filter (\<lambda>k. array_index k \<noteq> None \<and> k \<noteq> ''__proto__'') (map user_id regs) = []"
      using p by (intro filter_none) auto
    moreover have "filter (\<lambda>k. array_index k = None \<and> k \<noteq> ''__proto__'') (map user_id regs) =
        map user_id regs"
      using p by (intro filter_all) auto
    ultimately show ?thesis
      using roster [OF t r d] by simp
  qed
  show ?thesis
    using sorted pos stable roster plain by blast
qed

theorem standings_ranking_witness:
  "map team_id (getGroupStandings (Some [hawks_host home_3_2]) None (Some four_teams) None) =
     [''H'', ''Z'', ''Y'', ''A''] \<and>
   map position (getGroupStandings (Some [hawks_host home_3_2]) None (Some four_teams) None) =
     [1, 2, 3, 4] \<and>
   sorted_wrt ranks_before
     (getGroupStandings (Some [hawks_host home_3_2]) None (Some four_teams) None) \<and>
   position (getGroupStandings (Some [hawks_host home_3_2]) None (Some four_teams) None ! 2) = 3 \<and>
   (\<exists>standings. tabulate (Some [hawks_host home_3_2]) (Some four_teams) = Inr standings \<and>
      map team_id (Object_values standings) = [''A'', ''Z'', ''Y'', ''H''] \<and>
      map team_id
        (filter (\<lambda>s. points s = 0 \<and> individual_matches_won s - individual_matches_lost s = 0)
           (getGroupStandings (Some [hawks_host home_3_2]) None (Some four_teams) None)) =
      map team_id
        (filter (\<lambda>s. points s = 0 \<and> individual_matches_won s - individual_matches_lost s = 0)
           (Object_values standings)))"
proof -
  let ?out = "getGroupStandings (Some [hawks_host home_3_2]) None (Some four_teams) None"
  have ids: "map team_id ?out = [''H'', ''Z'', ''Y'', ''A'']"
    by code_simp
  have ps: "map position ?out = [1, 2, 3, 4]"
    by code_simp
  have len: "2 < length ?out"
    using arg_cong [OF ids, of length] by simp
  have d: "distinct (map user_id four_teams)" and u: "map user_id four_teams = [''A'', ''Z'', ''Y'', ''H'']"
    by (simp_all add: four_teams_def)
  have "list_all (\<lambda>r. array_index (user_id r) = None \<and> user_id r \<noteq> ''__proto__'') four_teams"
    by code_simp
  then have plain: "\<forall>r \<in> set four_teams. array_index (user_id r) = None \<and> user_id r \<noteq> ''__proto__''"
    by (simp add: list_all_iff)
  obtain standings where t: "tabulate (Some [hawks_host home_3_2]) (Some four_teams) = Inr standings"
    using getGroupStandings_cases [of "Some [hawks_host home_3_2]" None "Some four_teams" None] ids
    by auto
  note r = standings_ranking [of "Some [hawks_host home_3_2]" None "Some four_teams" None]
  have srt: "sorted_wrt ranks_before ?out" using r by blast
  have p2: "position (?out ! 2) = 3" using r len by auto
  have "map team_id (Object_values standings) = map user_id four_teams"
    using r t d plain by blast
  then have vals: "map team_id (Object_values standings) = [''A'', ''Z'', ''Y'', ''H'']"
    using u by simp
  have stab: "map team_id
        (filter (\<lambda>s. points s = 0 \<and> individual_matches_won s - individual_matches_lost s = 0) ?out) =
      map team_id
        (filter (\<lambda>s. points s = 0 \<and> individual_matches_won s - individual_matches_lost s = 0)
           (Object_values standings))"
    using r t by blast
  show ?thesis
    by (intro conjI exI [of _ standings]) (rule ids ps srt p2 t vals stab)+
qed







end
